theory Spec2Isabelle
  imports Complex_Main "HOL-Library.AList" "HOL-Library.Log_Nat"
begin

section \<open>Data model of \<open>calculate_mean_reqs_per_sec.py\<close>\<close>

text \<open>
  The script reads a JSON-lines event log, groups the events into scans and reports the
  mean number of requests per second. Exceptions are values: every function that can raise
  returns \<open>error + 'a\<close>, with \<open>Inl\<close> for the exception.
\<close>

datatype error =
  SystemExit int | KeyError string | ValueError | TypeError | OverflowError | ZeroDivisionError

text \<open>
  A \<open>datetime\<close> as the script uses it: it is only compared and subtracted. \<open>micros\<close> is
  the position on the time line in microseconds (the UTC instant of an offset-qualified
  value, the wall-clock reading of a naive one); \<open>aware\<close> tells whether the value carries
  an offset. Python refuses to compare or subtract a naive and an aware value.
\<close>

record datetime =
  micros :: int
  aware :: bool

text \<open>
  An event is one decoded JSON object. A key that the object does not have is \<open>None\<close>;
  the values have the types of the data model (strings, and an integer request budget).
\<close>

record event =
  time :: "string option"
  event_type :: "string option"
  template_id :: "string option"
  target :: "string option"
  template_path :: "string option"
  max_requests :: "int option"

text \<open>The dictionary that \<open>main\<close> stores per scan key.\<close>

record scan =
  scan_template_id :: string
  scan_target :: string
  scan_template_path :: string
  scan_max_requests :: int
  start_time :: "datetime option"
  end_time :: "datetime option"

text \<open>
  \<open>scan_groups\<close> is a Python dict: an association list in insertion order, updated in
  place (\<open>AList.update\<close> keeps the position of a key that is present and appends a new one).
\<close>

type_synonym groups = "(string \<times> scan) list"

section \<open>Exceptions, subscripts and timestamps\<close>

definition and_then :: "error + 'a \<Rightarrow> ('a \<Rightarrow> error + 'b) \<Rightarrow> error + 'b" where
  "and_then r f = (case r of Inl err \<Rightarrow> Inl err | Inr v \<Rightarrow> f v)"

text \<open>\<open>event["k"]\<close>: the value, or \<open>KeyError\<close> when the key is absent.\<close>

definition getitem :: "string \<Rightarrow> 'a option \<Rightarrow> error + 'a" where
  "getitem k field = (case field of None \<Rightarrow> Inl (KeyError k) | Some v \<Rightarrow> Inr v)"

text \<open>\<open>s.replace("Z", "+00:00")\<close>: every \<open>Z\<close> of the string is replaced.\<close>

fun replace_Z :: "string \<Rightarrow> string" where
  "replace_Z [] = []"
| "replace_Z (c # cs) =
     (if c = CHR ''Z'' then ''+00:00'' @ replace_Z cs else c # replace_Z cs)"

text \<open>
  \<open>datetime.fromisoformat\<close> belongs to the Python library, not to the script: it is a
  parameter \<open>fromiso\<close> of every function that parses a timestamp, \<open>None\<close> being its
  \<open>ValueError\<close>.
\<close>

definition parse_time :: "(string \<Rightarrow> datetime option) \<Rightarrow> string \<Rightarrow> error + datetime" where
  "parse_time fromiso s = (case fromiso (replace_Z s) of None \<Rightarrow> Inl ValueError | Some t \<Rightarrow> Inr t)"

text \<open>\<open>a < b\<close> and \<open>a > b\<close> on datetimes, and \<open>(a - b)\<close> as a number of microseconds.\<close>

definition lt_dt :: "datetime \<Rightarrow> datetime \<Rightarrow> error + bool" where
  "lt_dt a b = (if aware a \<noteq> aware b then Inl TypeError else Inr (micros a < micros b))"

definition gt_dt :: "datetime \<Rightarrow> datetime \<Rightarrow> error + bool" where
  "gt_dt a b = (if aware a \<noteq> aware b then Inl TypeError else Inr (micros a > micros b))"

definition sub_dt :: "datetime \<Rightarrow> datetime \<Rightarrow> error + int" where
  "sub_dt a b = (if aware a \<noteq> aware b then Inl TypeError else Inr (micros a - micros b))"

section \<open>Floats\<close>

text \<open>
  A Python float is a binary64 number: a finite value (kept as the rational it denotes,
  the sign of zero apart), an infinity or a NaN.
\<close>

datatype pyfloat = Finite rat | PosInf | NegInf | NaN

text \<open>Rounding to the nearest integer, a tie going to the even one.\<close>

definition rne :: "rat \<Rightarrow> int" where
  "rne x =
     (let f = \<lfloor>x\<rfloor>; d = x - of_int f
      in if d < 1 / 2 then f else if 1 / 2 < d then f + 1 else if even f then f else f + 1)"

text \<open>The binary exponent of a positive rational \<open>x\<close>: the \<open>e\<close> with \<open>2\<^sup>e \<le> x < 2\<^sup>e\<^sup>+\<^sup>1\<close>.\<close>

definition ilog2 :: "rat \<Rightarrow> int" where
  "ilog2 x =
     (let (p, q) = quotient_of x; d = bitlen p - bitlen q
      in if 2 powi d \<le> x then d else d - 1)"

text \<open>
  The binary64 number nearest to a rational, ties to even: 53 significant bits, the
  smallest spacing \<open>2\<^sup>-\<^sup>1\<^sup>0\<^sup>7\<^sup>4\<close> of the subnormal range, and an infinity when the rounded
  value reaches \<open>2\<^sup>1\<^sup>0\<^sup>2\<^sup>4\<close>.
\<close>

definition round_to_double :: "rat \<Rightarrow> pyfloat" where
  "round_to_double x =
     (if x = 0 then Finite 0
      else let q = max (ilog2 \<bar>x\<bar> - 52) (- 1074);
               y = of_int (rne (x / 2 powi q)) * 2 powi q
           in if 2 ^ 1024 \<le> y then PosInf
              else if y \<le> - (2 ^ 1024) then NegInf
              else Finite y)"

text \<open>
  \<open>float(n)\<close> for an integer, also the conversion of the integer operand of \<open>n / x\<close>:
  the nearest float, or \<open>OverflowError\<close> when that is out of range.
\<close>

definition float_of_int :: "int \<Rightarrow> error + pyfloat" where
  "float_of_int n =
     (case round_to_double (of_int n) of
        Finite y \<Rightarrow> Inr (Finite y)
      | _ \<Rightarrow> Inl OverflowError)"

text \<open>
  \<open>a / b\<close> on floats: \<open>ZeroDivisionError\<close> for a zero divisor, the rounded quotient of
  finite operands (an infinity when it is out of range), and the usual rules for infinite
  operands.
\<close>

definition float_div :: "pyfloat \<Rightarrow> pyfloat \<Rightarrow> error + pyfloat" where
  "float_div a b =
     (case b of
        Finite y \<Rightarrow>
          (if y = 0 then Inl ZeroDivisionError
           else (case a of
                   Finite x \<Rightarrow> Inr (round_to_double (x / y))
                 | PosInf \<Rightarrow> Inr (if 0 < y then PosInf else NegInf)
                 | NegInf \<Rightarrow> Inr (if 0 < y then NegInf else PosInf)
                 | NaN \<Rightarrow> Inr NaN))
      | NaN \<Rightarrow> Inr NaN
      | _ \<Rightarrow> (case a of Finite x \<Rightarrow> Inr (Finite 0) | _ \<Rightarrow> Inr NaN))"

text \<open>The tests \<open>x == 0\<close> and \<open>x > 0\<close> on a float.\<close>

definition is_zero :: "pyfloat \<Rightarrow> bool" where
  "is_zero x = (x = Finite 0)"

definition is_positive :: "pyfloat \<Rightarrow> bool" where
  "is_positive x = (case x of Finite r \<Rightarrow> 0 < r | PosInf \<Rightarrow> True | _ \<Rightarrow> False)"

text \<open>
  \<open>timedelta.total_seconds()\<close>: the true division of the microseconds by \<open>10\<^sup>6\<close>, rounded
  to the nearest float. The difference of two datetimes is below \<open>2\<^sup>5\<^sup>9\<close> microseconds,
  so this division never leaves the float range.
\<close>

definition total_seconds_of :: "int \<Rightarrow> pyfloat" where
  "total_seconds_of delta = round_to_double (of_int delta / 1000000)"

section \<open>The built-ins \<open>min\<close> and \<open>max\<close>\<close>

text \<open>
  The built-ins \<open>min\<close> and \<open>max\<close> on a list: the first item is the candidate, and a
  later item replaces it when it compares strictly below (above) the candidate.
\<close>

fun min_loop :: "datetime \<Rightarrow> datetime list \<Rightarrow> error + datetime" where
  "min_loop best [] = Inr best"
| "min_loop best (x # xs) =
     (case lt_dt x best of Inl err \<Rightarrow> Inl err
      | Inr b \<Rightarrow> min_loop (if b then x else best) xs)"

fun max_loop :: "datetime \<Rightarrow> datetime list \<Rightarrow> error + datetime" where
  "max_loop best [] = Inr best"
| "max_loop best (x # xs) =
     (case gt_dt x best of Inl err \<Rightarrow> Inl err
      | Inr b \<Rightarrow> max_loop (if b then x else best) xs)"

definition py_min :: "datetime list \<Rightarrow> error + datetime" where
  "py_min xs = (case xs of [] \<Rightarrow> Inl ValueError | x # rest \<Rightarrow> min_loop x rest)"

definition py_max :: "datetime list \<Rightarrow> error + datetime" where
  "py_max xs = (case xs of [] \<Rightarrow> Inl ValueError | x # rest \<Rightarrow> max_loop x rest)"

section \<open>\<open>calculate_mean_reqs_per_sec\<close>: the flat method\<close>

text \<open>
  The \<open>for\<close> loop of the function, with its two accumulators: the timestamp is parsed
  first, then \<open>event.get("max_requests", 1)\<close> is added to the total.
\<close>

fun collect ::
  "(string \<Rightarrow> datetime option) \<Rightarrow> event list \<Rightarrow> datetime list \<Rightarrow> int
     \<Rightarrow> error + (datetime list \<times> int)" where
  "collect fromiso [] timestamps total_requests = Inr (timestamps, total_requests)"
| "collect fromiso (e # es) timestamps total_requests =
     and_then (getitem ''time'' (time e)) (\<lambda>s.
     and_then (parse_time fromiso s) (\<lambda>timestamp.
       collect fromiso es (timestamps @ [timestamp])
         (total_requests + (case max_requests e of None \<Rightarrow> 1 | Some n \<Rightarrow> n))))"

definition calculate_mean_reqs_per_sec ::
  "(string \<Rightarrow> datetime option) \<Rightarrow> event list \<Rightarrow> error + pyfloat" where
  "calculate_mean_reqs_per_sec fromiso events =
     (if events = [] then Inr (Finite 0)
      else and_then (collect fromiso events [] 0) (\<lambda>(timestamps, total_requests).
        if length timestamps < 2 then Inr (Finite 0)
        else and_then (py_min timestamps) (\<lambda>start.
             and_then (py_max timestamps) (\<lambda>finish.
             and_then (sub_dt finish start) (\<lambda>delta.
               if is_zero (total_seconds_of delta) then float_of_int total_requests
               else and_then (float_of_int total_requests) (\<lambda>x.
                      float_div x (total_seconds_of delta)))))))"

section \<open>\<open>main\<close>: grouping the events into scans\<close>

text \<open>The key \<open>f"{event['template_id']}_{event['target']}"\<close>.\<close>

definition scan_key :: "string \<Rightarrow> string \<Rightarrow> string" where
  "scan_key tid tgt = tid @ ''_'' @ tgt"

definition event_key :: "event \<Rightarrow> error + string" where
  "event_key e =
     and_then (getitem ''template_id'' (template_id e)) (\<lambda>tid.
     and_then (getitem ''target'' (target e)) (\<lambda>tgt.
       Inr (scan_key tid tgt)))"

text \<open>\<open>if key not in scan_groups: scan_groups[key] = {...}\<close>.\<close>

definition ensure_group :: "groups \<Rightarrow> string \<Rightarrow> event \<Rightarrow> error + groups" where
  "ensure_group scan_groups key e =
     (case map_of scan_groups key of
        Some g \<Rightarrow> Inr scan_groups
      | None \<Rightarrow>
          and_then (getitem ''template_id'' (template_id e)) (\<lambda>tid.
          and_then (getitem ''target'' (target e)) (\<lambda>tgt.
          and_then (getitem ''template_path'' (template_path e)) (\<lambda>path.
          and_then (getitem ''max_requests'' (max_requests e)) (\<lambda>budget.
            Inr (AList.update key
                  \<lparr>scan_template_id = tid, scan_target = tgt, scan_template_path = path,
                   scan_max_requests = budget, start_time = None, end_time = None\<rparr>
                  scan_groups))))))"

text \<open>\<open>scan_groups[key]["start_time"] = t\<close> and \<open>scan_groups[key]["end_time"] = t\<close>.\<close>

definition set_start_time :: "groups \<Rightarrow> string \<Rightarrow> datetime \<Rightarrow> error + groups" where
  "set_start_time scan_groups key t =
     (case map_of scan_groups key of
        None \<Rightarrow> Inl (KeyError key)
      | Some g \<Rightarrow> Inr (AList.update key (g\<lparr>start_time := Some t\<rparr>) scan_groups))"

definition set_end_time :: "groups \<Rightarrow> string \<Rightarrow> datetime \<Rightarrow> error + groups" where
  "set_end_time scan_groups key t =
     (case map_of scan_groups key of
        None \<Rightarrow> Inl (KeyError key)
      | Some g \<Rightarrow> Inr (AList.update key (g\<lparr>end_time := Some t\<rparr>) scan_groups))"

text \<open>One iteration of the grouping loop.\<close>

definition process_event ::
  "(string \<Rightarrow> datetime option) \<Rightarrow> groups \<Rightarrow> event \<Rightarrow> error + groups" where
  "process_event fromiso scan_groups e =
     and_then (event_key e) (\<lambda>key.
     and_then (ensure_group scan_groups key e) (\<lambda>gs.
     and_then (getitem ''event_type'' (event_type e)) (\<lambda>ty.
       if ty = ''scan_start'' then
         and_then (getitem ''time'' (time e)) (\<lambda>s.
         and_then (parse_time fromiso s) (\<lambda>t. set_start_time gs key t))
       else if ty = ''scan_end'' then
         and_then (getitem ''time'' (time e)) (\<lambda>s.
         and_then (parse_time fromiso s) (\<lambda>t. set_end_time gs key t))
       else Inr gs)))"

fun group_events ::
  "(string \<Rightarrow> datetime option) \<Rightarrow> groups \<Rightarrow> event list \<Rightarrow> error + groups" where
  "group_events fromiso scan_groups [] = Inr scan_groups"
| "group_events fromiso scan_groups (e # es) =
     and_then (process_event fromiso scan_groups e) (\<lambda>gs. group_events fromiso gs es)"

section \<open>\<open>main\<close>: the completed scans and their statistics\<close>

text \<open>
  \<open>if scan["start_time"] and scan["end_time"]\<close>: a \<open>datetime\<close> is always truthy, so the
  test is that neither field is \<open>None\<close>.
\<close>

definition is_completed :: "scan \<Rightarrow> bool" where
  "is_completed s = (start_time s \<noteq> None \<and> end_time s \<noteq> None)"

definition completed_scans :: "groups \<Rightarrow> scan list" where
  "completed_scans scan_groups = filter is_completed (map snd scan_groups)"

text \<open>\<open>all_times.extend([scan["start_time"], scan["end_time"]])\<close> for each completed scan.\<close>

fun scan_times :: "scan \<Rightarrow> datetime list" where
  "scan_times s =
     (case start_time s of None \<Rightarrow> []
      | Some a \<Rightarrow> (case end_time s of None \<Rightarrow> [] | Some b \<Rightarrow> [a, b]))"

definition all_times :: "scan list \<Rightarrow> datetime list" where
  "all_times completed = concat (map scan_times completed)"

text \<open>The list \<open>durations\<close>: \<open>(end_time - start_time).total_seconds()\<close> of each scan.\<close>

fun durations :: "scan list \<Rightarrow> error + pyfloat list" where
  "durations [] = Inr []"
| "durations (s # ss) =
     (case start_time s of None \<Rightarrow> Inl TypeError
      | Some a \<Rightarrow> (case end_time s of None \<Rightarrow> Inl TypeError
      | Some b \<Rightarrow>
          and_then (sub_dt b a) (\<lambda>d.
          and_then (durations ss) (\<lambda>ds. Inr (total_seconds_of d # ds)))))"

text \<open>
  The figures of the "Results" block, and the list of durations. The average, the
  shortest and the longest duration are printed from that list by float additions and
  comparisons, which raise nothing; they are not part of the record.
\<close>

record stats =
  total_requests :: int
  total_seconds :: pyfloat
  mean_reqs_per_sec :: pyfloat
  scan_durations :: "pyfloat list"

definition statistics :: "scan list \<Rightarrow> error + stats" where
  "statistics completed =
     (let total = sum_list (map scan_max_requests completed);
          times = all_times completed
      in and_then (py_min times) (\<lambda>start.
         and_then (py_max times) (\<lambda>finish.
         and_then (sub_dt finish start) (\<lambda>delta.
         and_then
           (if is_positive (total_seconds_of delta)
            then and_then (float_of_int total) (\<lambda>x. float_div x (total_seconds_of delta))
            else float_of_int total) (\<lambda>mean.
         and_then (durations completed) (\<lambda>ds.
           Inr \<lparr>total_requests = total,
                total_seconds = total_seconds_of delta,
                mean_reqs_per_sec = mean,
                scan_durations = ds\<rparr>))))))"

text \<open>
  What \<open>main\<close> prints: the three counts, and the statistics when there is a completed scan
  (\<open>None\<close> stands for the line "No completed scans found in the data.").
\<close>

record report =
  total_events :: nat
  unique_scans :: nat
  completed_count :: nat
  results :: "stats option"

text \<open>The body of \<open>main\<close> from the grouping loop on, given the parsed events.\<close>

definition analyse :: "(string \<Rightarrow> datetime option) \<Rightarrow> event list \<Rightarrow> error + report" where
  "analyse fromiso events =
     and_then (group_events fromiso [] events) (\<lambda>scan_groups.
       let completed = completed_scans scan_groups
       in if completed \<noteq> [] then
            and_then (statistics completed) (\<lambda>st.
              Inr \<lparr>total_events = length events, unique_scans = length scan_groups,
                   completed_count = length completed, results = Some st\<rparr>)
          else
            Inr \<lparr>total_events = length events, unique_scans = length scan_groups,
                 completed_count = length completed, results = None\<rparr>)"

section \<open>\<open>parse_events_file\<close> and the exit status\<close>

text \<open>
  The file is read as text: a line is a list of Unicode code points. \<open>line.strip()\<close>
  removes from both ends the characters that Python counts as white space.
\<close>

type_synonym unicode = "nat list"

definition is_space :: "nat \<Rightarrow> bool" where
  "is_space c =
     ((0x09 \<le> c \<and> c \<le> 0x0D) \<or> (0x1C \<le> c \<and> c \<le> 0x20) \<or> c = 0x85 \<or> c = 0xA0
      \<or> c = 0x1680 \<or> (0x2000 \<le> c \<and> c \<le> 0x200A) \<or> c = 0x2028 \<or> c = 0x2029
      \<or> c = 0x202F \<or> c = 0x205F \<or> c = 0x3000)"

definition strip :: "unicode \<Rightarrow> unicode" where
  "strip s = rev (dropWhile is_space (rev (dropWhile is_space s)))"

text \<open>
  \<open>json.loads\<close> is a library function too: the parameter \<open>loads\<close>, \<open>None\<close> being its
  \<open>JSONDecodeError\<close>. Both handlers of \<open>parse_events_file\<close> end in \<open>sys.exit(1)\<close>.
\<close>

fun read_lines ::
  "(unicode \<Rightarrow> event option) \<Rightarrow> unicode list \<Rightarrow> event list \<Rightarrow> error + event list" where
  "read_lines loads [] events = Inr events"
| "read_lines loads (l # ls) events =
     (let line = strip l
      in if line \<noteq> [] then
           (case loads line of
              None \<Rightarrow> Inl (SystemExit 1)
            | Some e \<Rightarrow> read_lines loads ls (events @ [e]))
         else read_lines loads ls events)"

text \<open>
  The file is \<open>None\<close> when the path does not exist, and its lines otherwise: a file that
  exists is taken to be readable and to decode as text.
\<close>

definition parse_events_file ::
  "(unicode \<Rightarrow> event option) \<Rightarrow> unicode list option \<Rightarrow> error + event list" where
  "parse_events_file loads file =
     (case file of None \<Rightarrow> Inl (SystemExit 1) | Some ls \<Rightarrow> read_lines loads ls [])"

definition main ::
  "(unicode \<Rightarrow> event option) \<Rightarrow> (string \<Rightarrow> datetime option) \<Rightarrow> unicode list option
     \<Rightarrow> error + report" where
  "main loads fromiso file = and_then (parse_events_file loads file) (analyse fromiso)"

text \<open>
  The status of the process: that of \<open>sys.exit\<close>, 1 for an exception nobody catches,
  0 when \<open>main\<close> returns.
\<close>

definition exit_status :: "error + 'a \<Rightarrow> int" where
  "exit_status r =
     (case r of Inr v \<Rightarrow> 0 | Inl (SystemExit n) \<Rightarrow> n | Inl err \<Rightarrow> 1)"

section \<open>Notions used to state the properties\<close>

text \<open>
  Timestamps can be compared when they are all naive or all offset-qualified; the span of
  a set of timestamps is its maximum minus its minimum, in microseconds.
\<close>

definition comparable :: "datetime set \<Rightarrow> bool" where
  "comparable T = (\<forall>t\<in>T. \<forall>u\<in>T. aware t = aware u)"

definition span_micros :: "datetime set \<Rightarrow> int" where
  "span_micros T = Max (micros ` T) - Min (micros ` T)"

text \<open>The parsed timestamp of an event: \<open>None\<close> when the key is absent or the value does not parse.\<close>

definition timestamp_of :: "(string \<Rightarrow> datetime option) \<Rightarrow> event \<Rightarrow> datetime option" where
  "timestamp_of fromiso e = (case time e of None \<Rightarrow> None | Some s \<Rightarrow> fromiso (replace_Z s))"

text \<open>An event of type \<open>ty\<close> whose scan key is \<open>k\<close>.\<close>

definition has_event :: "string \<Rightarrow> string \<Rightarrow> event \<Rightarrow> bool" where
  "has_event ty k e = (event_key e = Inr k \<and> event_type e = Some ty)"

text \<open>The parsed timestamp of the last event of type \<open>ty\<close> and key \<open>k\<close> in a list.\<close>

definition last_time ::
  "(string \<Rightarrow> datetime option) \<Rightarrow> string \<Rightarrow> string \<Rightarrow> event list \<Rightarrow> datetime option" where
  "last_time fromiso ty k events =
     (case filter (has_event ty k) events of [] \<Rightarrow> None
      | e # es \<Rightarrow> timestamp_of fromiso (last (e # es)))"

definition start_field :: "groups \<Rightarrow> string \<Rightarrow> datetime option" where
  "start_field gs k = (case map_of gs k of None \<Rightarrow> None | Some g \<Rightarrow> start_time g)"

definition end_field :: "groups \<Rightarrow> string \<Rightarrow> datetime option" where
  "end_field gs k = (case map_of gs k of None \<Rightarrow> None | Some g \<Rightarrow> end_time g)"

text \<open>The start and end timestamps of a list of scans, as a set.\<close>

definition stamps :: "scan list \<Rightarrow> datetime set" where
  "stamps completed = (\<Union>s\<in>set completed. set_option (start_time s) \<union> set_option (end_time s))"

text \<open>The keys of the completed groups, and the request budget stored under a key.\<close>

definition completed_keys :: "groups \<Rightarrow> string set" where
  "completed_keys gs =
     {k \<in> fst ` set gs. case map_of gs k of None \<Rightarrow> False | Some g \<Rightarrow> is_completed g}"

definition group_budget :: "groups \<Rightarrow> string \<Rightarrow> int" where
  "group_budget gs k = (case map_of gs k of None \<Rightarrow> 0 | Some g \<Rightarrow> scan_max_requests g)"

text \<open>
  What the grouping loop needs of an event, given the keys seen so far: a key (both
  \<open>template_id\<close> and \<open>target\<close>), for a new key also \<open>template_path\<close> and
  \<open>max_requests\<close>, an \<open>event_type\<close>, and for a \<open>scan_start\<close> or \<open>scan_end\<close> a \<open>time\<close>
  that parses.
\<close>

definition event_ok :: "(string \<Rightarrow> datetime option) \<Rightarrow> string set \<Rightarrow> event \<Rightarrow> bool" where
  "event_ok fromiso seen e =
     ((case event_key e of
         Inl err \<Rightarrow> False
       | Inr k \<Rightarrow> k \<in> seen \<or> (template_path e \<noteq> None \<and> max_requests e \<noteq> None))
      \<and> (case event_type e of
            None \<Rightarrow> False
          | Some ty \<Rightarrow>
              ty = ''scan_start'' \<or> ty = ''scan_end'' \<longrightarrow> timestamp_of fromiso e \<noteq> None))"

fun events_ok :: "(string \<Rightarrow> datetime option) \<Rightarrow> string set \<Rightarrow> event list \<Rightarrow> bool" where
  "events_ok fromiso seen [] = True"
| "events_ok fromiso seen (e # es) =
     (event_ok fromiso seen e
      \<and> events_ok fromiso (case event_key e of Inl err \<Rightarrow> seen | Inr k \<Rightarrow> insert k seen) es)"

text \<open>
  The statistics raise nothing: there is no completed scan, or the timestamps of the
  completed scans can be compared and the sum of their budgets converts to a float.
\<close>

definition statistics_ok :: "groups \<Rightarrow> bool" where
  "statistics_ok gs =
     (completed_scans gs = []
      \<or> (comparable (stamps (completed_scans gs))
          \<and> float_of_int (\<Sum>k\<in>completed_keys gs. group_budget gs k) \<noteq> Inl OverflowError))"

text \<open>The exception of \<open>sys.exit\<close>, as opposed to one that nobody catches.\<close>

definition is_exit :: "error \<Rightarrow> bool" where
  "is_exit err = (case err of SystemExit n \<Rightarrow> True | _ \<Rightarrow> False)"

text \<open>What \<open>json.loads\<close> returns on the non-blank lines of a file, in order.\<close>

definition decoded :: "(unicode \<Rightarrow> event option) \<Rightarrow> unicode list \<Rightarrow> event option list" where
  "decoded loads ls = map loads (filter (\<lambda>l. l \<noteq> []) (map strip ls))"

section \<open>Sample inputs\<close>

text \<open>
  The values of \<open>datetime.fromisoformat\<close> on the timestamps of the examples, seconds
  after 1970-01-01T00:00:00 UTC. Any other string counts as unparseable; the examples
  rely on that only for a string that is not a timestamp at all.
\<close>

definition at_second :: "int \<Rightarrow> datetime" where
  "at_second n = \<lparr>micros = n * 1000000, aware = True\<rparr>"

definition fromiso_sample :: "string \<Rightarrow> datetime option" where
  "fromiso_sample s = map_of
     [(''1970-01-01T00:00:00+00:00'', at_second 0),
      (''1970-01-01T00:00:05+00:00'', at_second 5),
      (''1970-01-01T00:00:10+00:00'', at_second 10),
      (''1970-01-01T00:00:15+00:00'', at_second 15),
      (''1970-01-01T00:00:20+00:00'', at_second 20)] s"

definition sample_event :: "string \<Rightarrow> string \<Rightarrow> string \<Rightarrow> string \<Rightarrow> int \<Rightarrow> event" where
  "sample_event ty tid tgt t n =
     \<lparr>time = Some t, event_type = Some ty, template_id = Some tid, target = Some tgt,
      template_path = Some ''cves/x.yaml'', max_requests = Some n\<rparr>"

definition sample_scan :: "string \<Rightarrow> string \<Rightarrow> int \<Rightarrow> datetime option \<Rightarrow> datetime option \<Rightarrow> scan" where
  "sample_scan tid tgt n a b =
     \<lparr>scan_template_id = tid, scan_target = tgt, scan_template_path = ''cves/x.yaml'',
      scan_max_requests = n, start_time = a, end_time = b\<rparr>"

text \<open>Two overlapping scans: A from 0 s to 10 s with budget 100, B from 5 s to 15 s with budget 50.\<close>

definition two_scans :: "event list" where
  "two_scans =
     [sample_event ''scan_start'' ''A'' ''h1'' ''1970-01-01T00:00:00Z'' 100,
      sample_event ''scan_start'' ''B'' ''h1'' ''1970-01-01T00:00:05Z'' 50,
      sample_event ''scan_end'' ''A'' ''h1'' ''1970-01-01T00:00:10Z'' 100,
      sample_event ''scan_end'' ''B'' ''h1'' ''1970-01-01T00:00:15Z'' 50]"

definition two_scans_groups :: groups where
  "two_scans_groups =
     [(''A_h1'', sample_scan ''A'' ''h1'' 100 (Some (at_second 0)) (Some (at_second 10))),
      (''B_h1'', sample_scan ''B'' ''h1'' 50 (Some (at_second 5)) (Some (at_second 15)))]"

text \<open>One key with three \<open>scan_start\<close> events, at 5 s, 20 s and 10 s, and its end at 15 s.\<close>

definition repeated_starts :: "event list" where
  "repeated_starts =
     [sample_event ''scan_start'' ''A'' ''h1'' ''1970-01-01T00:00:05Z'' 7,
      sample_event ''scan_start'' ''A'' ''h1'' ''1970-01-01T00:00:20Z'' 7,
      sample_event ''scan_start'' ''A'' ''h1'' ''1970-01-01T00:00:10Z'' 7,
      sample_event ''scan_end'' ''A'' ''h1'' ''1970-01-01T00:00:15Z'' 7]"

definition repeated_groups :: groups where
  "repeated_groups =
     [(''A_h1'', sample_scan ''A'' ''h1'' 7 (Some (at_second 10)) (Some (at_second 15)))]"

text \<open>A scan that starts and ends at the same instant; its second event has no \<open>max_requests\<close>.\<close>

definition same_instant :: "event list" where
  "same_instant =
     [sample_event ''scan_start'' ''A'' ''h1'' ''1970-01-01T00:00:00Z'' 3,
      (sample_event ''scan_end'' ''A'' ''h1'' ''1970-01-01T00:00:00Z'' 3)\<lparr>max_requests := None\<rparr>]"

definition same_instant_groups :: groups where
  "same_instant_groups =
     [(''A_h1'', sample_scan ''A'' ''h1'' 3 (Some (at_second 0)) (Some (at_second 0)))]"

text \<open>A finished scan A and a scan B that never ends.\<close>

definition unfinished :: "event list" where
  "unfinished =
     [sample_event ''scan_start'' ''A'' ''h1'' ''1970-01-01T00:00:00Z'' 50,
      sample_event ''scan_end'' ''A'' ''h1'' ''1970-01-01T00:00:10Z'' 50,
      sample_event ''scan_start'' ''B'' ''h1'' ''1970-01-01T00:00:05Z'' 20]"

definition unfinished_groups :: groups where
  "unfinished_groups =
     [(''A_h1'', sample_scan ''A'' ''h1'' 50 (Some (at_second 0)) (Some (at_second 10))),
      (''B_h1'', sample_scan ''B'' ''h1'' 20 (Some (at_second 5)) None)]"

text \<open>A scan of 10 s whose budget is \<open>2\<^sup>1\<^sup>0\<^sup>2\<^sup>4\<close>, beyond the largest float.\<close>

definition huge_scan :: "event list" where
  "huge_scan =
     [sample_event ''scan_start'' ''A'' ''h1'' ''1970-01-01T00:00:00Z'' (2 ^ 1024),
      sample_event ''scan_end'' ''A'' ''h1'' ''1970-01-01T00:00:10Z'' (2 ^ 1024)]"

definition huge_scan_groups :: groups where
  "huge_scan_groups =
     [(''A_h1'', sample_scan ''A'' ''h1'' (2 ^ 1024) (Some (at_second 0)) (Some (at_second 10)))]"

text \<open>
  Two events at the same instant: the first has budget \<open>2\<^sup>5\<^sup>3\<close>, the second has no
  \<open>max_requests\<close>, so that the flat total is \<open>2\<^sup>5\<^sup>3 + 1\<close>, which is not a float.
\<close>

definition odd_total :: "event list" where
  "odd_total =
     [sample_event ''scan_start'' ''A'' ''h1'' ''1970-01-01T00:00:00Z'' (2 ^ 53),
      (sample_event ''scan_end'' ''A'' ''h1'' ''1970-01-01T00:00:00Z'' 0)\<lparr>max_requests := None\<rparr>]"

text \<open>One scan of 10 s with budget 50.\<close>

definition one_scan :: "event list" where
  "one_scan =
     [sample_event ''scan_start'' ''A'' ''h1'' ''1970-01-01T00:00:00Z'' 50,
      sample_event ''scan_end'' ''A'' ''h1'' ''1970-01-01T00:00:10Z'' 50]"

definition one_scan_groups :: groups where
  "one_scan_groups =
     [(''A_h1'', sample_scan ''A'' ''h1'' 50 (Some (at_second 0)) (Some (at_second 10)))]"

text \<open>
  The values of \<open>json.loads\<close> on the lines of the examples: the empty object, and the
  start and the end of one scan, 10 s apart with budget 50. The fourth line of the
  examples, \<open>not json\<close>, is not in the table. The lines are ASCII; \<open>codepoints\<close> gives
  their code points.
\<close>

definition codepoints :: "string \<Rightarrow> unicode" where
  "codepoints s = map of_char s"

definition empty_object :: event where
  "empty_object =
     \<lparr>time = None, event_type = None, template_id = None, target = None,
      template_path = None, max_requests = None\<rparr>"

definition start_line :: string where
  \<open>start_line = ''{"time": "1970-01-01T00:00:00Z", "event_type": "scan_start", "template_id": "A", "target": "h1", "template_path": "cves/x.yaml", "max_requests": 50}''\<close>

definition end_line :: string where
  \<open>end_line = ''{"time": "1970-01-01T00:00:10Z", "event_type": "scan_end", "template_id": "A", "target": "h1", "template_path": "cves/x.yaml", "max_requests": 50}''\<close>

definition loads_sample :: "unicode \<Rightarrow> event option" where
  "loads_sample s = map_of
     [(codepoints ''{}'', empty_object),
      (codepoints start_line, one_scan ! 0),
      (codepoints end_line, one_scan ! 1)] s"

text \<open>
  A log of three lines; the middle one holds a space and a no-break space (U+00A0) and
  counts as blank.
\<close>

definition one_scan_file :: "unicode list" where
  "one_scan_file =
     [codepoints (start_line @ ''\<newline>''), [0x20, 0xA0, 0x0A], codepoints (end_line @ ''\<newline>'')]"

section \<open>Rounding to a float\<close>

lemma rne_of_int: "rne (of_int n) = n"
  by (simp add: rne_def)

lemma floor_le_rne: "\<lfloor>x\<rfloor> \<le> rne x"
  by (simp add: rne_def Let_def)

lemma rne_ge: "of_int k \<le> x \<Longrightarrow> k \<le> rne x"
  using floor_le_rne [of x] le_floor_iff [of k x] by linarith

lemma ilog2_lower:
  assumes "0 < x"
  shows "2 powi ilog2 x \<le> x"
proof -
  obtain p q where pq: "quotient_of x = (p, q)" by (cases "quotient_of x")
  have q: "0 < q" using quotient_of_denom_pos [OF pq] .
  have x: "x = of_int p / of_int q" using quotient_of_div [OF pq] .
  have p: "0 < p" using assms q unfolding x by (simp add: zero_less_divide_iff)
  let ?d = "bitlen p - bitlen q"
  show ?thesis
  proof (cases "2 powi ?d \<le> x")
    case True
    then show ?thesis by (simp add: ilog2_def pq)
  next
    case False
    have bp: "1 \<le> bitlen p" using p by (simp add: bitlen_alt_def)
    have low: "(2::int) ^ nat (bitlen p - 1) \<le> p" using bitlen_bounds [OF p] by simp
    have up: "q < 2 ^ nat (bitlen q)" using bitlen_bounds [OF q] by simp
    have "?d - 1 = (bitlen p - 1) - bitlen q" by simp
    then have "(2::rat) powi (?d - 1) = 2 powi ((bitlen p - 1) - bitlen q)"
      by (rule arg_cong)
    also have "\<dots> = 2 powi (bitlen p - 1) / 2 powi (bitlen q)"
      by (rule power_int_diff) simp
    also have "\<dots> = 2 ^ nat (bitlen p - 1) / 2 ^ nat (bitlen q)"
      using bp bitlen_nonneg [of q] by (simp add: power_int_def)
    also have "\<dots> \<le> of_int p / of_int q"
    proof (rule frac_le)
      show "(0::rat) \<le> of_int p" using p by simp
      have "(of_int ((2::int) ^ nat (bitlen p - 1)) :: rat) \<le> of_int p"
        using low by (simp only: of_int_le_iff)
      then show "(2::rat) ^ nat (bitlen p - 1) \<le> of_int p" by simp
      show "(0::rat) < of_int q" using q by simp
      have "(of_int q :: rat) \<le> of_int ((2::int) ^ nat (bitlen q))"
        using up by (simp only: of_int_le_iff)
      then show "(of_int q :: rat) \<le> 2 ^ nat (bitlen q)" by simp
    qed
    finally have "2 powi (?d - 1) \<le> x" by (simp add: x)
    with False show ?thesis by (simp add: ilog2_def pq)
  qed
qed

lemma ilog2_upper:
  assumes "0 < x"
  shows "x < 2 powi (ilog2 x + 1)"
proof -
  obtain p q where pq: "quotient_of x = (p, q)" by (cases "quotient_of x")
  have q: "0 < q" using quotient_of_denom_pos [OF pq] .
  have x: "x = of_int p / of_int q" using quotient_of_div [OF pq] .
  have p: "0 < p" using assms q unfolding x by (simp add: zero_less_divide_iff)
  let ?d = "bitlen p - bitlen q"
  show ?thesis
  proof (cases "2 powi ?d \<le> x")
    case False
    then show ?thesis by (simp add: ilog2_def pq)
  next
    case True
    have bq: "1 \<le> bitlen q" using q by (simp add: bitlen_alt_def)
    have up: "p < 2 ^ nat (bitlen p)" using bitlen_bounds [OF p] by simp
    have low: "(2::int) ^ nat (bitlen q - 1) \<le> q" using bitlen_bounds [OF q] by simp
    have "of_int p / of_int q < (2::rat) ^ nat (bitlen p) / 2 ^ nat (bitlen q - 1)"
    proof (rule frac_less)
      show "(0::rat) \<le> of_int p" using p by simp
      have "(of_int p :: rat) < of_int ((2::int) ^ nat (bitlen p))"
        using up by (simp only: of_int_less_iff)
      then show "(of_int p :: rat) < 2 ^ nat (bitlen p)" by simp
      show "(0::rat) < 2 ^ nat (bitlen q - 1)" by simp
      have "(of_int ((2::int) ^ nat (bitlen q - 1)) :: rat) \<le> of_int q"
        using low by (simp only: of_int_le_iff)
      then show "(2::rat) ^ nat (bitlen q - 1) \<le> of_int q" by simp
    qed
    also have "\<dots> = 2 powi (bitlen p) / 2 powi (bitlen q - 1)"
      using bq bitlen_nonneg [of p] by (simp add: power_int_def)
    also have "\<dots> = 2 powi (bitlen p - (bitlen q - 1))"
      by (rule power_int_diff [symmetric]) simp
    also have "bitlen p - (bitlen q - 1) = ?d + 1" by simp
    finally have "x < 2 powi (?d + 1)" by (simp add: x)
    with True show ?thesis by (simp add: ilog2_def pq)
  qed
qed

lemma powi2_less_imp: "(2::rat) powi a < 2 powi b \<Longrightarrow> a < b"
  using power_int_increasing [of b a "2::rat"] by (cases "a < b") auto

lemma ilog2_eqI:
  assumes "2 powi e \<le> x" "x < 2 powi (e + 1)"
  shows "ilog2 x = e"
proof -
  have pos: "0 < x" using assms(1) by (meson less_le_trans zero_less_numeral zero_less_power_int)
  from ilog2_lower [OF pos] assms(2) have "(2::rat) powi ilog2 x < 2 powi (e + 1)" by simp
  then have a: "ilog2 x < e + 1" by (rule powi2_less_imp)
  from ilog2_upper [OF pos] assms(1) have "(2::rat) powi e < 2 powi (ilog2 x + 1)" by simp
  then have b: "e < ilog2 x + 1" by (rule powi2_less_imp)
  from a b show ?thesis by simp
qed

lemma round_small_int:
  assumes "\<bar>n\<bar> < 2 ^ 53"
  shows "round_to_double (of_int n) = Finite (of_int n)"
proof (cases "n = 0")
  case True
  then show ?thesis by (simp add: round_to_double_def)
next
  case False
  let ?x = "of_int n :: rat"
  let ?e = "ilog2 \<bar>?x\<bar>"
  let ?q = "max (?e - 52) (- 1074)"
  have pos: "0 < \<bar>?x\<bar>" using False by simp
  have "\<bar>?x\<bar> < 2 ^ 53"
  proof -
    have "(of_int \<bar>n\<bar> :: rat) < of_int (2 ^ 53)" using assms by (simp only: of_int_less_iff)
    then show ?thesis by simp
  qed
  with ilog2_lower [OF pos] have "(2::rat) powi ?e < 2 powi 53" by simp
  then have "?e < 53" by (rule powi2_less_imp)
  then have q: "?q \<le> 0" by simp
  define k where "k = nat (- ?q)"
  have pq: "(2::rat) powi ?q = 1 / 2 ^ k"
    using q by (simp add: k_def power_int_def power_one_over inverse_eq_divide)
  have "?x / 2 powi ?q = of_int (n * 2 ^ k)" by (simp add: pq)
  then have "rne (?x / 2 powi ?q) = n * 2 ^ k" by (simp only: rne_of_int)
  then have y: "of_int (rne (?x / 2 powi ?q)) * 2 powi ?q = ?x" by (simp add: pq)
  have b: "\<bar>?x\<bar> < 2 ^ 1024"
  proof -
    have "(2::rat) ^ 53 \<le> 2 ^ 1024" by (rule power_increasing) simp_all
    with \<open>\<bar>?x\<bar> < 2 ^ 53\<close> show ?thesis by (rule less_le_trans)
  qed
  then have "\<not> 2 ^ 1024 \<le> ?x" "\<not> ?x \<le> - (2 ^ 1024)" by linarith+
  with False y show ?thesis by (simp add: round_to_double_def Let_def)
qed

lemma float_of_small_int: "\<bar>n\<bar> < 2 ^ 53 \<Longrightarrow> float_of_int n = Inr (Finite (of_int n))"
  by (simp add: float_of_int_def round_small_int)

lemma round_positive:
  assumes "2 powi (- 1074) \<le> x"
  shows "is_positive (round_to_double x) \<and> \<not> is_zero (round_to_double x)"
proof -
  have pos: "0 < x" using assms by (meson less_le_trans zero_less_numeral zero_less_power_int)
  let ?e = "ilog2 \<bar>x\<bar>"
  let ?q = "max (?e - 52) (- 1074)"
  let ?y = "of_int (rne (x / 2 powi ?q)) * (2::rat) powi ?q"
  have ax: "\<bar>x\<bar> = x" using pos by simp
  have p2: "(0::rat) < 2 powi ?q" by (rule zero_less_power_int) simp
  have "(2::rat) powi ?q \<le> x"
  proof (cases "?e - 52 \<le> - 1074")
    case True
    then have "?q = - 1074" by simp
    with assms show ?thesis by simp
  next
    case False
    then have "?q = ?e - 52" by simp
    moreover have "(2::rat) powi (?e - 52) \<le> 2 powi ?e" by (rule power_int_increasing) simp_all
    moreover have "(2::rat) powi ?e \<le> x" using ilog2_lower [of "\<bar>x\<bar>"] pos by (simp add: ax)
    ultimately show ?thesis by simp
  qed
  then have "of_int 1 \<le> x / 2 powi ?q" using p2 by (simp add: le_divide_eq)
  then have "1 \<le> rne (x / 2 powi ?q)" by (rule rne_ge)
  then have "(1::rat) \<le> of_int (rne (x / 2 powi ?q))" by simp
  then have "0 < ?y" using p2 by (simp add: zero_less_mult_iff)
  then show ?thesis
    using pos by (auto simp: round_to_double_def Let_def is_positive_def is_zero_def)
qed

lemma total_seconds_positive:
  assumes "0 < m"
  shows "is_positive (total_seconds_of m) \<and> \<not> is_zero (total_seconds_of m)"
proof -
  have "(1::rat) / 1000000 \<le> of_int m / 1000000"
    using assms by (simp add: divide_le_cancel)
  moreover have "(2::rat) powi (- 1074) \<le> 1 / 1000000"
  proof -
    have "(2::rat) powi (- 1074) \<le> 2 powi (- 20)" by (rule power_int_increasing) simp_all
    also have "\<dots> \<le> 1 / 1000000" by (simp add: power_int_minus_divide)
    finally show ?thesis .
  qed
  ultimately have "(2::rat) powi (- 1074) \<le> of_int m / 1000000" by (rule order_trans [rotated])
  from round_positive [OF this] show ?thesis by (simp add: total_seconds_of_def)
qed

lemma total_seconds_zero: "total_seconds_of 0 = Finite 0"
  by (simp add: total_seconds_of_def round_to_double_def)

lemma float_of_big_int:
  assumes "2 ^ 1024 \<le> n"
  shows "float_of_int n = Inl OverflowError"
proof -
  let ?x = "of_int n :: rat"
  have big: "(2::rat) ^ 1024 \<le> ?x"
  proof -
    have "(of_int (2 ^ 1024) :: rat) \<le> of_int n" using assms by (simp only: of_int_le_iff)
    then show ?thesis by simp
  qed
  then have pos: "0 < ?x" by (meson less_le_trans zero_less_numeral zero_less_power)
  have ax: "\<bar>?x\<bar> = ?x" using pos by simp
  let ?e = "ilog2 \<bar>?x\<bar>"
  let ?q = "max (?e - 52) (- 1074)"
  let ?y = "of_int (rne (?x / 2 powi ?q)) * (2::rat) powi ?q"
  have "(2::rat) powi 1024 < 2 powi (?e + 1)"
    using ilog2_upper [of "\<bar>?x\<bar>"] pos big by (simp add: ax)
  then have "1024 < ?e + 1" by (rule powi2_less_imp)
  then have e: "1024 \<le> ?e" by simp
  then have q: "?q = ?e - 52" by simp
  have p2: "(0::rat) < 2 powi ?q" by (rule zero_less_power_int) simp
  have low: "(2::rat) powi ?e \<le> ?x" using ilog2_lower [of "\<bar>?x\<bar>"] pos by (simp add: ax)
  have "(2::rat) powi ?e = 2 powi 52 * 2 powi ?q"
    unfolding q by (subst power_int_add [symmetric]) simp_all
  with low have "(2::rat) powi 52 * 2 powi ?q \<le> ?x" by simp
  then have "(2::rat) powi 52 \<le> ?x / 2 powi ?q" using p2 by (simp add: le_divide_eq)
  then have "of_int (2 ^ 52) \<le> ?x / 2 powi ?q" by simp
  then have "2 ^ 52 \<le> rne (?x / 2 powi ?q)" by (rule rne_ge)
  then have "(of_int (2 ^ 52) :: rat) \<le> of_int (rne (?x / 2 powi ?q))"
    by (simp only: of_int_le_iff)
  then have "(2::rat) powi 52 * 2 powi ?q \<le> ?y"
    using p2 by (simp add: mult_right_mono)
  with \<open>(2::rat) powi ?e = 2 powi 52 * 2 powi ?q\<close> have "(2::rat) powi ?e \<le> ?y" by simp
  moreover have "(2::rat) powi 1024 \<le> 2 powi ?e" using e by (rule power_int_increasing) simp
  ultimately have "(2::rat) ^ 1024 \<le> ?y" by simp
  then show ?thesis
    using pos by (simp add: float_of_int_def round_to_double_def Let_def)
qed

lemma rne_error: "\<bar>of_int (rne u) - u\<bar> \<le> 1 / 2"
proof -
  have "of_int \<lfloor>u\<rfloor> \<le> u" "u < of_int \<lfloor>u\<rfloor> + 1" by linarith+
  then show ?thesis by (auto simp: rne_def Let_def abs_le_iff)
qed

lemma float_of_int_Inl: "float_of_int n = Inl err \<Longrightarrow> err = OverflowError"
  by (auto simp: float_of_int_def split: pyfloat.splits)

lemma float_of_int_accuracy:
  assumes "float_of_int n = Inr (Finite y)"
  shows "\<bar>y - of_int n\<bar> * 2 ^ 53 \<le> \<bar>of_int n\<bar>"
proof (cases "n = 0")
  case True
  with assms show ?thesis by (simp add: float_of_int_def round_to_double_def)
next
  case False
  let ?x = "of_int n :: rat"
  let ?e = "ilog2 \<bar>?x\<bar>"
  let ?q = "?e - 52"
  have one: "(1::rat) \<le> \<bar>?x\<bar>"
  proof -
    have "1 \<le> \<bar>n\<bar>" using False by simp
    then have "(of_int 1 :: rat) \<le> of_int \<bar>n\<bar>" by (simp only: of_int_le_iff)
    then show ?thesis by simp
  qed
  then have pos: "0 < \<bar>?x\<bar>" by simp
  have "(2::rat) powi 0 < 2 powi (?e + 1)" using ilog2_upper [OF pos] one by simp
  then have "0 < ?e + 1" by (rule powi2_less_imp)
  then have q: "max (?e - 52) (- 1074) = ?q" by simp
  have p2: "(0::rat) < 2 powi ?q" by (rule zero_less_power_int) simp
  let ?m = "rne (?x / 2 powi ?q)"
  from assms False have y: "y = of_int ?m * 2 powi ?q"
    by (simp add: float_of_int_def round_to_double_def Let_def q split: if_splits)
  have "y - ?x = (of_int ?m - ?x / 2 powi ?q) * 2 powi ?q" using p2 by (simp add: y field_simps)
  then have "\<bar>y - ?x\<bar> = \<bar>of_int ?m - ?x / 2 powi ?q\<bar> * 2 powi ?q"
    using p2 by (simp add: abs_mult)
  also have "\<dots> \<le> 1 / 2 * 2 powi ?q"
    using rne_error [of "?x / 2 powi ?q"] p2 by (simp add: mult_right_mono)
  finally have err: "\<bar>y - ?x\<bar> \<le> 1 / 2 * 2 powi ?q" .
  have "(2::rat) powi ?e = 2 powi ?q * 2 powi 52"
    by (subst power_int_add [symmetric]) simp_all
  then have split: "(2::rat) powi ?e = 2 powi ?q * 2 ^ 52" by simp
  have "\<bar>y - ?x\<bar> * 2 ^ 53 \<le> (1 / 2 * 2 powi ?q) * 2 ^ 53"
    using err by (simp add: mult_right_mono)
  also have "\<dots> = 2 powi ?e" by (simp add: split)
  also have "\<dots> \<le> \<bar>?x\<bar>" by (rule ilog2_lower [OF pos])
  finally show ?thesis .
qed

lemma float_div_positive:
  "is_positive b \<Longrightarrow> \<exists>r. float_div a b = Inr r"
  by (cases b; cases a) (auto simp: float_div_def is_positive_def)


lemma round_to_double_cert:
  assumes "2 powi e \<le> \<bar>x\<bar>" "\<bar>x\<bar> < 2 powi (e + 1)"
    and "rne (x / 2 powi max (e - 52) (- 1074)) = m"
    and "\<bar>of_int m * (2::rat) powi max (e - 52) (- 1074)\<bar> < 2 ^ 1024"
  shows "round_to_double x = Finite (of_int m * 2 powi max (e - 52) (- 1074))"
proof -
  have e: "ilog2 \<bar>x\<bar> = e" using assms(1,2) by (rule ilog2_eqI)
  have "0 < \<bar>x\<bar>" using assms(1) by (meson less_le_trans zero_less_numeral zero_less_power_int)
  then have nz: "x \<noteq> 0" by simp
  from assms(4) have "\<not> 2 ^ 1024 \<le> of_int m * (2::rat) powi max (e - 52) (- 1074)"
    "\<not> of_int m * (2::rat) powi max (e - 52) (- 1074) \<le> - (2 ^ 1024)" by linarith+
  then show ?thesis using nz by (simp add: round_to_double_def Let_def e assms(3))
qed

lemma round_numeral:
  "numeral k < (2::int) ^ 53 \<Longrightarrow> round_to_double (numeral k) = Finite (numeral k)"
  using round_small_int [of "numeral k"] by simp

lemma float_of_int_cases:
  obtains (overflow) "float_of_int n = Inl OverflowError"
    | (finite) y where "float_of_int n = Inr (Finite y)"
  by (cases "round_to_double (of_int n)") (auto simp: float_of_int_def)

section \<open>Exceptions and the built-ins \<open>min\<close> and \<open>max\<close>\<close>

lemma and_then_Inr: "and_then r f = Inr y \<longleftrightarrow> (\<exists>v. r = Inr v \<and> f v = Inr y)"
  by (cases r) (simp_all add: and_then_def)

lemma and_then_simps: "and_then (Inr v) f = f v" "and_then (Inl err) f = Inl err"
  by (simp_all add: and_then_def)

lemma min_loop_fold:
  "\<forall>x\<in>set xs. aware x = aware best \<Longrightarrow>
   \<exists>m. min_loop best xs = Inr m \<and> aware m = aware best
        \<and> micros m = fold min (map micros xs) (micros best)"
proof (induction xs arbitrary: best)
  case Nil
  then show ?case by simp
next
  case (Cons x xs)
  let ?b = "if micros x < micros best then x else best"
  have "\<forall>y\<in>set xs. aware y = aware ?b" using Cons.prems by simp
  from Cons.IH [OF this] obtain m where
    m: "min_loop ?b xs = Inr m" "aware m = aware ?b"
       "micros m = fold min (map micros xs) (micros ?b)" by blast
  have "micros ?b = min (micros x) (micros best)" by (simp add: min_def)
  with m Cons.prems show ?case by (simp add: lt_dt_def)
qed

lemma max_loop_fold:
  "\<forall>x\<in>set xs. aware x = aware best \<Longrightarrow>
   \<exists>m. max_loop best xs = Inr m \<and> aware m = aware best
        \<and> micros m = fold max (map micros xs) (micros best)"
proof (induction xs arbitrary: best)
  case Nil
  then show ?case by simp
next
  case (Cons x xs)
  let ?b = "if micros x > micros best then x else best"
  have "\<forall>y\<in>set xs. aware y = aware ?b" using Cons.prems by simp
  from Cons.IH [OF this] obtain m where
    m: "max_loop ?b xs = Inr m" "aware m = aware ?b"
       "micros m = fold max (map micros xs) (micros ?b)" by blast
  have "micros ?b = max (micros x) (micros best)" by (simp add: max_def)
  with m Cons.prems show ?case by (simp add: gt_dt_def)
qed

lemma py_min_Min:
  assumes "ts \<noteq> []" "comparable (set ts)"
  shows "\<exists>m. py_min ts = Inr m \<and> (\<forall>t\<in>set ts. aware t = aware m)
             \<and> micros m = Min (micros ` set ts)"
proof -
  from assms(1) obtain x xs where ts: "ts = x # xs" by (cases ts) auto
  have "\<forall>y\<in>set xs. aware y = aware x"
    using assms(2) unfolding comparable_def ts by (meson list.set_intros)
  from min_loop_fold [OF this] obtain m where
    m: "min_loop x xs = Inr m" "aware m = aware x"
       "micros m = fold min (map micros xs) (micros x)" by blast
  have "Min (micros ` set ts) = Min (set (micros x # map micros xs))" by (simp add: ts)
  also have "\<dots> = fold min (map micros xs) (micros x)" by (rule Min.set_eq_fold)
  finally have "micros m = Min (micros ` set ts)" using m(3) by simp
  moreover have "\<forall>t\<in>set ts. aware t = aware m"
    using assms(2) m(2) unfolding comparable_def ts by (metis list.set_intros(1))
  ultimately show ?thesis using m(1) by (simp add: py_min_def ts)
qed

lemma py_max_Max:
  assumes "ts \<noteq> []" "comparable (set ts)"
  shows "\<exists>m. py_max ts = Inr m \<and> (\<forall>t\<in>set ts. aware t = aware m)
             \<and> micros m = Max (micros ` set ts)"
proof -
  from assms(1) obtain x xs where ts: "ts = x # xs" by (cases ts) auto
  have "\<forall>y\<in>set xs. aware y = aware x"
    using assms(2) unfolding comparable_def ts by (meson list.set_intros)
  from max_loop_fold [OF this] obtain m where
    m: "max_loop x xs = Inr m" "aware m = aware x"
       "micros m = fold max (map micros xs) (micros x)" by blast
  have "Max (micros ` set ts) = Max (set (micros x # map micros xs))" by (simp add: ts)
  also have "\<dots> = fold max (map micros xs) (micros x)" by (rule Max.set_eq_fold)
  finally have "micros m = Max (micros ` set ts)" using m(3) by simp
  moreover have "\<forall>t\<in>set ts. aware t = aware m"
    using assms(2) m(2) unfolding comparable_def ts by (metis list.set_intros(1))
  ultimately show ?thesis using m(1) by (simp add: py_max_def ts)
qed

lemma span_of_times:
  assumes "ts \<noteq> []" "comparable (set ts)"
  shows "\<exists>a b. py_min ts = Inr a \<and> py_max ts = Inr b
               \<and> sub_dt b a = Inr (span_micros (set ts))"
proof -
  from py_min_Min [OF assms] obtain a where
    a: "py_min ts = Inr a" "\<forall>t\<in>set ts. aware t = aware a" "micros a = Min (micros ` set ts)"
    by blast
  from py_max_Max [OF assms] obtain b where
    b: "py_max ts = Inr b" "\<forall>t\<in>set ts. aware t = aware b" "micros b = Max (micros ` set ts)"
    by blast
  from assms(1) obtain t where "t \<in> set ts" by (cases ts) auto
  with a(2) b(2) have "aware a = aware b" by metis
  then have "sub_dt b a = Inr (span_micros (set ts))"
    by (simp add: sub_dt_def span_micros_def a(3) b(3))
  with a(1) b(1) show ?thesis by blast
qed

section \<open>The flat method\<close>

lemma collect_parsed:
  "map (timestamp_of fromiso) events = map Some ts \<Longrightarrow>
   collect fromiso events acc tot =
     Inr (acc @ ts, tot + (\<Sum>e\<leftarrow>events. case max_requests e of None \<Rightarrow> 1 | Some n \<Rightarrow> n))"
proof (induction events arbitrary: ts acc tot)
  case Nil
  then show ?case by simp
next
  case (Cons e es)
  from Cons.prems obtain t ts' where ts: "ts = t # ts'"
    and t: "timestamp_of fromiso e = Some t"
    and rest: "map (timestamp_of fromiso) es = map Some ts'"
    by (cases ts) auto
  from t obtain s where s: "time e = Some s" "fromiso (replace_Z s) = Some t"
    by (auto simp: timestamp_of_def split: option.splits)
  show ?case
    using Cons.IH [OF rest, of "acc @ [t]"] s
    by (simp add: ts and_then_def getitem_def parse_time_def add.assoc)
qed

lemma collect_unparsed:
  "timestamp_of fromiso e = None \<Longrightarrow> \<exists>err. collect fromiso (e # es) acc tot = Inl err"
  by (auto simp: timestamp_of_def and_then_def getitem_def parse_time_def split: option.splits)

lemma flat_mean_general:
  assumes len: "2 \<le> length events"
    and parsed: "map (timestamp_of fromiso) events = map Some ts"
    and cmp: "comparable (set ts)"
  shows "calculate_mean_reqs_per_sec fromiso events =
     (let tot = (\<Sum>e\<leftarrow>events. case max_requests e of None \<Rightarrow> 1 | Some n \<Rightarrow> n);
          secs = total_seconds_of (span_micros (set ts))
      in if is_zero secs then float_of_int tot
         else and_then (float_of_int tot) (\<lambda>x. float_div x secs))"
proof -
  have lts: "length ts = length events" using parsed by (metis length_map)
  with len have ne: "ts \<noteq> []" "events \<noteq> []" by auto
  from span_of_times [OF ne(1) cmp] obtain a b where
    ab: "py_min ts = Inr a" "py_max ts = Inr b" "sub_dt b a = Inr (span_micros (set ts))"
    by blast
  have c: "collect fromiso events [] 0 =
      Inr (ts, (\<Sum>e\<leftarrow>events. case max_requests e of None \<Rightarrow> 1 | Some n \<Rightarrow> n))"
    using collect_parsed [OF parsed, of "[]" 0] by simp
  show ?thesis
    using ne(2) len lts
    by (simp add: calculate_mean_reqs_per_sec_def c ab and_then_simps Let_def)
qed

lemma flat_single:
  "calculate_mean_reqs_per_sec fromiso [e] =
     (case time e of
        None \<Rightarrow> Inl (KeyError ''time'')
      | Some s \<Rightarrow>
          (case fromiso (replace_Z s) of None \<Rightarrow> Inl ValueError | Some t \<Rightarrow> Inr (Finite 0)))"
  by (simp add: calculate_mean_reqs_per_sec_def and_then_def getitem_def parse_time_def
      split: option.splits)

section \<open>One iteration of the grouping loop\<close>

lemma map_of_Some_key: "map_of gs k = Some v \<Longrightarrow> k \<in> fst ` set gs"
  by (metis map_of_eq_None_iff option.distinct(1))

lemma ensure_group_other:
  "ensure_group gs k e = Inr gs1 \<Longrightarrow> k' \<noteq> k \<Longrightarrow> map_of gs1 k' = map_of gs k'"
  by (auto simp: ensure_group_def and_then_Inr update_conv' split: option.splits)

lemma ensure_group_present:
  "ensure_group gs k e = Inr gs1 \<Longrightarrow> map_of gs k = Some g \<Longrightarrow> gs1 = gs"
  by (simp add: ensure_group_def)

lemma ensure_group_new:
  "ensure_group gs k e = Inr gs1 \<Longrightarrow> map_of gs k = None \<Longrightarrow>
   \<exists>g. map_of gs1 k = Some g \<and> start_time g = None \<and> end_time g = None
       \<and> template_id e = Some (scan_template_id g) \<and> target e = Some (scan_target g)
       \<and> template_path e = Some (scan_template_path g)
       \<and> max_requests e = Some (scan_max_requests g)"
  by (auto simp: ensure_group_def and_then_Inr getitem_def update_conv' split: option.splits)

lemma ensure_group_keys:
  "ensure_group gs k e = Inr gs1 \<Longrightarrow> map fst gs1 = (if k \<in> fst ` set gs then map fst gs else map fst gs @ [k])"
  by (auto simp: ensure_group_def and_then_Inr map_of_eq_None_iff update_keys
           dest: map_of_Some_key split: option.splits)

lemma set_start_time_map_of:
  "set_start_time gs1 k t = Inr gs' \<Longrightarrow>
   \<exists>g. map_of gs1 k = Some g \<and> map_of gs' = (map_of gs1)(k \<mapsto> g\<lparr>start_time := Some t\<rparr>)"
  by (auto simp: set_start_time_def update_conv' split: option.splits)

lemma set_end_time_map_of:
  "set_end_time gs1 k t = Inr gs' \<Longrightarrow>
   \<exists>g. map_of gs1 k = Some g \<and> map_of gs' = (map_of gs1)(k \<mapsto> g\<lparr>end_time := Some t\<rparr>)"
  by (auto simp: set_end_time_def update_conv' split: option.splits)

lemma set_start_time_keys: "set_start_time gs1 k t = Inr gs' \<Longrightarrow> map fst gs' = map fst gs1"
  by (auto simp: set_start_time_def update_keys map_of_eq_None_iff
           dest: map_of_Some_key split: option.splits)

lemma set_end_time_keys: "set_end_time gs1 k t = Inr gs' \<Longrightarrow> map fst gs' = map fst gs1"
  by (auto simp: set_end_time_def update_keys map_of_eq_None_iff
           dest: map_of_Some_key split: option.splits)

lemma parse_time_Inr:
  "time e = Some s \<Longrightarrow> parse_time fromiso s = Inr t \<longleftrightarrow> timestamp_of fromiso e = Some t"
  by (simp add: parse_time_def timestamp_of_def split: option.splits)

text \<open>The three ways an iteration can succeed.\<close>

lemma process_event_cases:
  assumes "process_event fromiso gs e = Inr gs'"
  obtains (start) k gs1 t where "event_key e = Inr k" "ensure_group gs k e = Inr gs1"
      "event_type e = Some ''scan_start''" "timestamp_of fromiso e = Some t"
      "set_start_time gs1 k t = Inr gs'"
    | (finish) k gs1 t where "event_key e = Inr k" "ensure_group gs k e = Inr gs1"
      "event_type e = Some ''scan_end''" "timestamp_of fromiso e = Some t"
      "set_end_time gs1 k t = Inr gs'"
    | (other) k ty where "event_key e = Inr k" "ensure_group gs k e = Inr gs'"
      "event_type e = Some ty" "ty \<noteq> ''scan_start''" "ty \<noteq> ''scan_end''"
proof -
  from assms obtain k gs1 ty where k: "event_key e = Inr k"
    and g: "ensure_group gs k e = Inr gs1" and ty: "event_type e = Some ty"
    and body: "(if ty = ''scan_start'' then
         and_then (getitem ''time'' (time e)) (\<lambda>s.
         and_then (parse_time fromiso s) (\<lambda>t. set_start_time gs1 k t))
       else if ty = ''scan_end'' then
         and_then (getitem ''time'' (time e)) (\<lambda>s.
         and_then (parse_time fromiso s) (\<lambda>t. set_end_time gs1 k t))
       else Inr gs1) = Inr gs'"
    unfolding process_event_def and_then_Inr
    by (auto simp: getitem_def split: option.splits)
  consider "ty = ''scan_start''" | "ty = ''scan_end''" | "ty \<noteq> ''scan_start''" "ty \<noteq> ''scan_end''"
    by blast
  then show thesis
  proof cases
    case 1
    with body obtain s t where "time e = Some s" "parse_time fromiso s = Inr t"
      "set_start_time gs1 k t = Inr gs'"
      by (auto simp: and_then_Inr getitem_def split: option.splits)
    with start [OF k g] ty 1 show thesis by (simp add: parse_time_Inr)
  next
    case 2
    with body obtain s t where "time e = Some s" "parse_time fromiso s = Inr t"
      "set_end_time gs1 k t = Inr gs'"
      by (auto simp: and_then_Inr getitem_def split: option.splits)
    with finish [OF k g] ty 2 show thesis by (simp add: parse_time_Inr)
  next
    case 3
    with body have "gs1 = gs'" by simp
    with other [OF k _ ty] g 3 show thesis by simp
  qed
qed

lemma ensure_group_start_field:
  "ensure_group gs k0 e = Inr gs1 \<Longrightarrow> start_field gs1 k = start_field gs k"
proof (cases "k = k0")
  case False
  assume "ensure_group gs k0 e = Inr gs1"
  from ensure_group_other [OF this False] show ?thesis by (simp add: start_field_def)
next
  case True
  assume g: "ensure_group gs k0 e = Inr gs1"
  show ?thesis
  proof (cases "map_of gs k0")
    case None
    from ensure_group_new [OF g None] show ?thesis
      using None True by (auto simp: start_field_def)
  next
    case (Some g0)
    from ensure_group_present [OF g Some] show ?thesis by simp
  qed
qed

lemma ensure_group_end_field:
  "ensure_group gs k0 e = Inr gs1 \<Longrightarrow> end_field gs1 k = end_field gs k"
proof (cases "k = k0")
  case False
  assume "ensure_group gs k0 e = Inr gs1"
  from ensure_group_other [OF this False] show ?thesis by (simp add: end_field_def)
next
  case True
  assume g: "ensure_group gs k0 e = Inr gs1"
  show ?thesis
  proof (cases "map_of gs k0")
    case None
    from ensure_group_new [OF g None] show ?thesis
      using None True by (auto simp: end_field_def)
  next
    case (Some g0)
    from ensure_group_present [OF g Some] show ?thesis by simp
  qed
qed

lemma process_event_start_field:
  assumes "process_event fromiso gs e = Inr gs'"
  shows "start_field gs' k =
     (if has_event ''scan_start'' k e then timestamp_of fromiso e else start_field gs k)"
  using assms
proof (cases rule: process_event_cases)
  case (start k0 gs1 t)
  from set_start_time_map_of [OF start(5)] obtain g where
    g: "map_of gs1 k0 = Some g" "map_of gs' = (map_of gs1)(k0 \<mapsto> g\<lparr>start_time := Some t\<rparr>)"
    by blast
  show ?thesis
  proof (cases "k = k0")
    case True
    then show ?thesis using start g by (simp add: has_event_def start_field_def)
  next
    case False
    then have "start_field gs' k = start_field gs1 k" using g by (simp add: start_field_def)
    with False start ensure_group_start_field [OF start(2), of k] show ?thesis
      by (simp add: has_event_def)
  qed
next
  case (finish k0 gs1 t)
  from set_end_time_map_of [OF finish(5)] obtain g where
    g: "map_of gs1 k0 = Some g" "map_of gs' = (map_of gs1)(k0 \<mapsto> g\<lparr>end_time := Some t\<rparr>)"
    by blast
  have "start_field gs' k = start_field gs1 k" using g by (simp add: start_field_def)
  with finish ensure_group_start_field [OF finish(2), of k] show ?thesis
    by (simp add: has_event_def)
next
  case (other k0 ty)
  with ensure_group_start_field [OF other(2), of k] show ?thesis
    by (simp add: has_event_def)
qed

lemma process_event_end_field:
  assumes "process_event fromiso gs e = Inr gs'"
  shows "end_field gs' k =
     (if has_event ''scan_end'' k e then timestamp_of fromiso e else end_field gs k)"
  using assms
proof (cases rule: process_event_cases)
  case (finish k0 gs1 t)
  from set_end_time_map_of [OF finish(5)] obtain g where
    g: "map_of gs1 k0 = Some g" "map_of gs' = (map_of gs1)(k0 \<mapsto> g\<lparr>end_time := Some t\<rparr>)"
    by blast
  show ?thesis
  proof (cases "k = k0")
    case True
    then show ?thesis using finish g by (simp add: has_event_def end_field_def)
  next
    case False
    then have "end_field gs' k = end_field gs1 k" using g by (simp add: end_field_def)
    with False finish ensure_group_end_field [OF finish(2), of k] show ?thesis
      by (simp add: has_event_def)
  qed
next
  case (start k0 gs1 t)
  from set_start_time_map_of [OF start(5)] obtain g where
    g: "map_of gs1 k0 = Some g" "map_of gs' = (map_of gs1)(k0 \<mapsto> g\<lparr>start_time := Some t\<rparr>)"
    by blast
  have "end_field gs' k = end_field gs1 k" using g by (simp add: end_field_def)
  with start ensure_group_end_field [OF start(2), of k] show ?thesis
    by (simp add: has_event_def)
next
  case (other k0 ty)
  with ensure_group_end_field [OF other(2), of k] show ?thesis
    by (simp add: has_event_def)
qed

lemma process_event_parsed:
  assumes "process_event fromiso gs e = Inr gs'"
    and "event_type e = Some ''scan_start'' \<or> event_type e = Some ''scan_end''"
  shows "timestamp_of fromiso e \<noteq> None"
  using assms by (cases rule: process_event_cases) auto

section \<open>The grouping loop\<close>

text \<open>
  The timestamps of a group after the loop: for each of the two fields, the parsed
  timestamp of the last event of that type and key, or the value before the loop when
  there is no such event.
\<close>

lemma group_events_Cons:
  "group_events fromiso gs (e # es) = Inr gs' \<longleftrightarrow>
   (\<exists>gs1. process_event fromiso gs e = Inr gs1 \<and> group_events fromiso gs1 es = Inr gs')"
  by (simp add: and_then_Inr)

lemma group_events_parsed:
  "group_events fromiso gs events = Inr gs' \<Longrightarrow> e \<in> set events \<Longrightarrow>
   event_type e = Some ''scan_start'' \<or> event_type e = Some ''scan_end'' \<Longrightarrow>
   timestamp_of fromiso e \<noteq> None"
proof (induction events arbitrary: gs)
  case Nil
  then show ?case by simp
next
  case (Cons x xs)
  from Cons.prems(1) obtain gs1 where
    step: "process_event fromiso gs x = Inr gs1" and rest: "group_events fromiso gs1 xs = Inr gs'"
    unfolding group_events_Cons by blast
  show ?case
  proof (cases "e = x")
    case True
    with process_event_parsed [OF step] Cons.prems(3) show ?thesis by simp
  next
    case False
    with Cons.prems(2) have "e \<in> set xs" by simp
    from Cons.IH [OF rest this Cons.prems(3)] show ?thesis .
  qed
qed

lemma group_events_start_field:
  "group_events fromiso gs events = Inr gs' \<Longrightarrow>
   start_field gs' k =
     (case filter (has_event ''scan_start'' k) events of
        [] \<Rightarrow> start_field gs k
      | e # es \<Rightarrow> timestamp_of fromiso (last (e # es)))"
proof (induction events arbitrary: gs)
  case Nil
  then show ?case by simp
next
  case (Cons x xs)
  from Cons.prems obtain gs1 where
    step: "process_event fromiso gs x = Inr gs1" and rest: "group_events fromiso gs1 xs = Inr gs'"
    unfolding group_events_Cons by blast
  note ih = Cons.IH [OF rest] and st = process_event_start_field [OF step, of k]
  show ?case
  proof (cases "filter (has_event ''scan_start'' k) xs")
    case Nil
    with ih st show ?thesis by simp
  next
    case (Cons y ys)
    with ih show ?thesis by simp
  qed
qed

lemma group_events_end_field:
  "group_events fromiso gs events = Inr gs' \<Longrightarrow>
   end_field gs' k =
     (case filter (has_event ''scan_end'' k) events of
        [] \<Rightarrow> end_field gs k
      | e # es \<Rightarrow> timestamp_of fromiso (last (e # es)))"
proof (induction events arbitrary: gs)
  case Nil
  then show ?case by simp
next
  case (Cons x xs)
  from Cons.prems obtain gs1 where
    step: "process_event fromiso gs x = Inr gs1" and rest: "group_events fromiso gs1 xs = Inr gs'"
    unfolding group_events_Cons by blast
  note ih = Cons.IH [OF rest] and st = process_event_end_field [OF step, of k]
  show ?case
  proof (cases "filter (has_event ''scan_end'' k) xs")
    case Nil
    with ih st show ?thesis by simp
  next
    case (Cons y ys)
    with ih show ?thesis by simp
  qed
qed

lemma last_time_parsed:
  assumes "group_events fromiso gs events = Inr gs'"
    and "filter (has_event ty k) events = e # es"
    and "ty = ''scan_start'' \<or> ty = ''scan_end''"
  shows "timestamp_of fromiso (last (e # es)) \<noteq> None"
proof -
  have "last (e # es) \<in> set (filter (has_event ty k) events)"
    unfolding assms(2) by (rule last_in_set) simp
  then have "last (e # es) \<in> set events" "has_event ty k (last (e # es))" by auto
  with group_events_parsed [OF assms(1), of "last (e # es)"] assms(3) show ?thesis
    by (auto simp: has_event_def)
qed

section \<open>The scan key\<close>

lemma key_inj_left:
  "CHR ''_'' \<notin> set a \<Longrightarrow> CHR ''_'' \<notin> set c \<Longrightarrow> a @ CHR ''_'' # b = c @ CHR ''_'' # d \<Longrightarrow>
   a = c \<and> b = d"
proof (induction a arbitrary: c)
  case Nil
  then show ?case by (cases c) auto
next
  case (Cons x xs)
  then show ?case by (cases c) auto
qed

lemma key_inj_right:
  assumes "CHR ''_'' \<notin> set b" "CHR ''_'' \<notin> set d" "a @ CHR ''_'' # b = c @ CHR ''_'' # d"
  shows "a = c \<and> b = d"
proof -
  from assms(3) have "rev (a @ CHR ''_'' # b) = rev (c @ CHR ''_'' # d)" by simp
  then have "rev b @ CHR ''_'' # rev a = rev d @ CHR ''_'' # rev c" by simp
  from key_inj_left [OF _ _ this] assms(1,2) show ?thesis by simp
qed

section \<open>Keys stay distinct\<close>

lemma process_event_keys:
  assumes "process_event fromiso gs e = Inr gs'"
  shows "\<exists>k. event_key e = Inr k \<and>
     map fst gs' = (if k \<in> fst ` set gs then map fst gs else map fst gs @ [k])"
  using assms
proof (cases rule: process_event_cases)
  case (start k0 gs1 t)
  with ensure_group_keys [OF start(2)] set_start_time_keys [OF start(5)] show ?thesis by simp
next
  case (finish k0 gs1 t)
  with ensure_group_keys [OF finish(2)] set_end_time_keys [OF finish(5)] show ?thesis by simp
next
  case (other k0 ty)
  with ensure_group_keys [OF other(2)] show ?thesis by simp
qed

lemma process_event_distinct:
  "process_event fromiso gs e = Inr gs' \<Longrightarrow> distinct (map fst gs) \<Longrightarrow> distinct (map fst gs')"
  using process_event_keys [of fromiso gs e gs'] by (auto split: if_splits)

lemma group_events_distinct:
  "group_events fromiso gs events = Inr gs' \<Longrightarrow> distinct (map fst gs) \<Longrightarrow> distinct (map fst gs')"
proof (induction events arbitrary: gs)
  case Nil
  then show ?case by simp
next
  case (Cons x xs)
  from Cons.prems(1) obtain gs1 where
    step: "process_event fromiso gs x = Inr gs1" and rest: "group_events fromiso gs1 xs = Inr gs'"
    unfolding group_events_Cons by blast
  from Cons.IH [OF rest process_event_distinct [OF step Cons.prems(2)]] show ?case .
qed

section \<open>The statistics of the completed scans\<close>

lemma budget_sum:
  "distinct (map fst gs) \<Longrightarrow>
   sum_list (map scan_max_requests (completed_scans gs)) = (\<Sum>k\<in>completed_keys gs. group_budget gs k)"
proof (induction gs)
  case Nil
  then show ?case by (simp add: completed_scans_def completed_keys_def)
next
  case (Cons p ps)
  obtain k g where p: "p = (k, g)" by (cases p)
  from Cons.prems have fresh: "k \<notin> fst ` set ps" and d: "distinct (map fst ps)"
    by (simp_all add: p)
  have keys: "completed_keys (p # ps) = (if is_completed g then {k} else {}) \<union> completed_keys ps"
    using fresh by (auto simp: completed_keys_def p split: option.splits if_splits)
  have notin: "k \<notin> completed_keys ps" using fresh by (simp add: completed_keys_def)
  have fin: "finite (completed_keys ps)" by (simp add: completed_keys_def)
  have same: "group_budget (p # ps) k' = group_budget ps k'" if "k' \<in> completed_keys ps" for k'
    using that fresh by (auto simp: group_budget_def completed_keys_def p)
  have cong: "(\<Sum>k'\<in>completed_keys ps. group_budget (p # ps) k')
      = (\<Sum>k'\<in>completed_keys ps. group_budget ps k')"
    by (rule sum.cong) (simp_all add: same)
  have kb: "group_budget (p # ps) k = scan_max_requests g" by (simp add: group_budget_def p)
  have rhs: "(\<Sum>k'\<in>completed_keys (p # ps). group_budget (p # ps) k')
      = (if is_completed g then scan_max_requests g else 0)
        + (\<Sum>k'\<in>completed_keys ps. group_budget (p # ps) k')"
    unfolding keys using notin fin kb by simp
  have lhs: "sum_list (map scan_max_requests (completed_scans (p # ps)))
      = (if is_completed g then scan_max_requests g else 0)
        + sum_list (map scan_max_requests (completed_scans ps))"
    by (simp add: completed_scans_def p)
  show ?case unfolding lhs rhs cong Cons.IH [OF d] ..
qed

lemma set_all_times:
  "\<forall>s\<in>set cs. is_completed s \<Longrightarrow> set (all_times cs) = stamps cs"
  by (induction cs) (auto simp: all_times_def stamps_def is_completed_def)

lemma all_times_nonempty:
  "cs \<noteq> [] \<Longrightarrow> \<forall>s\<in>set cs. is_completed s \<Longrightarrow> all_times cs \<noteq> []"
  by (cases cs) (auto simp: all_times_def is_completed_def)

lemma comparable_subset: "comparable T \<Longrightarrow> S \<subseteq> T \<Longrightarrow> comparable S"
  unfolding comparable_def by blast

lemma durations_ok:
  "\<forall>s\<in>set cs. is_completed s \<Longrightarrow> comparable (stamps cs) \<Longrightarrow>
   \<exists>ds. durations cs = Inr ds \<and> length ds = length cs"
proof (induction cs)
  case Nil
  then show ?case by simp
next
  case (Cons s ss)
  from Cons.prems(1) obtain a b where ab: "start_time s = Some a" "end_time s = Some b"
    by (auto simp: is_completed_def)
  have "a \<in> stamps (s # ss)" "b \<in> stamps (s # ss)" by (simp_all add: stamps_def ab)
  with Cons.prems(2) have "aware b = aware a" unfolding comparable_def by blast
  then have sub: "sub_dt b a = Inr (micros b - micros a)" by (simp add: sub_dt_def)
  have "stamps ss \<subseteq> stamps (s # ss)" by (auto simp: stamps_def)
  from comparable_subset [OF Cons.prems(2) this] Cons.IH Cons.prems(1)
  obtain ds where "durations ss = Inr ds" "length ds = length ss" by auto
  then show ?case by (simp add: ab sub and_then_simps)
qed

lemma completed_scans_completed: "\<forall>s\<in>set (completed_scans gs). is_completed s"
  by (simp add: completed_scans_def)

lemma statistics_general:
  assumes "cs \<noteq> []" "\<forall>s\<in>set cs. is_completed s" "comparable (stamps cs)"
    and "0 \<le> span_micros (stamps cs)"
  shows "case float_of_int (sum_list (map scan_max_requests cs)) of
      Inl err \<Rightarrow> statistics cs = Inl err
    | Inr x \<Rightarrow>
        \<exists>st. statistics cs = Inr st
          \<and> total_requests st = sum_list (map scan_max_requests cs)
          \<and> total_seconds st = total_seconds_of (span_micros (stamps cs))
          \<and> (if 0 < span_micros (stamps cs)
              then float_div x (total_seconds_of (span_micros (stamps cs)))
                   = Inr (mean_reqs_per_sec st)
              else mean_reqs_per_sec st = x)"
proof -
  let ?m = "span_micros (stamps cs)"
  let ?n = "sum_list (map scan_max_requests cs)"
  have ne: "all_times cs \<noteq> []" by (rule all_times_nonempty [OF assms(1,2)])
  have cmp: "comparable (set (all_times cs))"
    using assms(3) by (simp add: set_all_times [OF assms(2)])
  from span_of_times [OF ne cmp] obtain a b where
    ab: "py_min (all_times cs) = Inr a" "py_max (all_times cs) = Inr b"
        "sub_dt b a = Inr ?m"
    by (auto simp: set_all_times [OF assms(2)])
  from durations_ok [OF assms(2,3)] obtain ds where ds: "durations cs = Inr ds" by blast
  have unfold: "statistics cs =
      and_then (if is_positive (total_seconds_of ?m)
            then and_then (float_of_int ?n) (\<lambda>x. float_div x (total_seconds_of ?m))
            else float_of_int ?n)
        (\<lambda>mean. Inr \<lparr>total_requests = ?n, total_seconds = total_seconds_of ?m,
                      mean_reqs_per_sec = mean, scan_durations = ds\<rparr>)"
    by (simp add: statistics_def Let_def ab ds and_then_simps)
  show ?thesis
  proof (cases rule: float_of_int_cases [of ?n])
    case overflow
    then show ?thesis by (simp add: unfold and_then_simps)
  next
    case (finite y)
    show ?thesis
    proof (cases "0 < ?m")
      case True
      from total_seconds_positive [OF True] float_div_positive [of "total_seconds_of ?m" "Finite y"]
      obtain r where r: "float_div (Finite y) (total_seconds_of ?m) = Inr r"
        and p: "is_positive (total_seconds_of ?m)" by blast
      show ?thesis using True by (simp add: unfold finite r p and_then_simps)
    next
      case False
      with assms(4) have z: "?m = 0" by simp
      have "\<not> is_positive (total_seconds_of 0)"
        by (simp add: total_seconds_zero is_positive_def)
      then show ?thesis by (simp add: unfold finite z and_then_simps)
    qed
  qed
qed

lemma span_nonneg: "finite T \<Longrightarrow> T \<noteq> {} \<Longrightarrow> 0 \<le> span_micros T"
  by (simp add: span_micros_def)

lemma finite_stamps: "finite (stamps cs)"
  by (simp add: stamps_def)

lemma stamps_nonempty: "cs \<noteq> [] \<Longrightarrow> \<forall>s\<in>set cs. is_completed s \<Longrightarrow> stamps cs \<noteq> {}"
  using all_times_nonempty [of cs] set_all_times [of cs] by (metis set_empty)

section \<open>Which exceptions can be raised\<close>

lemma min_loop_aware:
  "min_loop best xs = Inr m \<Longrightarrow> \<forall>x\<in>set xs. aware x = aware best"
proof (induction xs arbitrary: best)
  case Nil
  then show ?case by simp
next
  case (Cons x xs)
  from Cons.prems have same: "aware x = aware best"
    by (auto simp: lt_dt_def split: if_splits)
  with Cons.prems have "min_loop (if micros x < micros best then x else best) xs = Inr m"
    by (simp add: lt_dt_def)
  from Cons.IH [OF this] same show ?case by (auto split: if_splits)
qed

lemma py_min_comparable:
  assumes "py_min ts = Inr m"
  shows "comparable (set ts)"
proof (cases ts)
  case Nil
  with assms show ?thesis by (simp add: py_min_def)
next
  case (Cons x xs)
  with assms have "min_loop x xs = Inr m" by (simp add: py_min_def)
  from min_loop_aware [OF this] show ?thesis
    unfolding comparable_def Cons by (metis set_ConsD)
qed

lemma min_loop_no_exit: "min_loop best xs = Inl err \<Longrightarrow> \<not> is_exit err"
  by (induction xs arbitrary: best)
     (auto simp: lt_dt_def is_exit_def split: if_splits sum.splits)

lemma max_loop_no_exit: "max_loop best xs = Inl err \<Longrightarrow> \<not> is_exit err"
  by (induction xs arbitrary: best)
     (auto simp: gt_dt_def is_exit_def split: if_splits sum.splits)

lemma durations_no_exit: "durations cs = Inl err \<Longrightarrow> \<not> is_exit err"
  by (induction cs arbitrary: err)
     (auto simp: sub_dt_def and_then_def is_exit_def split: option.splits if_splits sum.splits)

lemma float_of_int_no_exit: "float_of_int n = Inl err \<Longrightarrow> \<not> is_exit err"
  by (auto simp: float_of_int_def is_exit_def split: pyfloat.splits)

lemma float_div_no_exit: "float_div a b = Inl err \<Longrightarrow> \<not> is_exit err"
  by (auto simp: float_div_def is_exit_def split: pyfloat.splits if_splits)

lemma statistics_no_exit:
  assumes "statistics cs = Inl err"
  shows "\<not> is_exit err"
proof -
  have a: "\<not> is_exit e" if "py_min (all_times cs) = Inl e" for e
    using that min_loop_no_exit by (auto simp: py_min_def is_exit_def split: list.splits)
  have b: "\<not> is_exit e" if "py_max (all_times cs) = Inl e" for e
    using that max_loop_no_exit by (auto simp: py_max_def is_exit_def split: list.splits)
  have c: "\<not> is_exit e" if "sub_dt x y = Inl e" for e x y
    using that by (auto simp: sub_dt_def is_exit_def split: if_splits)
  from assms show ?thesis
    unfolding statistics_def Let_def and_then_def
    by (auto split: sum.splits if_splits
        dest: a b c durations_no_exit float_of_int_no_exit float_div_no_exit)
qed

lemma process_event_no_exit:
  assumes "process_event fromiso gs e = Inl err"
  shows "\<not> is_exit err"
  using assms
  unfolding process_event_def event_key_def ensure_group_def set_start_time_def
    set_end_time_def and_then_def getitem_def parse_time_def
  by (auto simp: is_exit_def split: sum.splits option.splits if_splits)

lemma group_events_no_exit: "group_events fromiso gs events = Inl err \<Longrightarrow> \<not> is_exit err"
proof (induction events arbitrary: gs)
  case Nil
  then show ?case by simp
next
  case (Cons x xs)
  then show ?case
    by (cases "process_event fromiso gs x")
       (auto simp: and_then_simps dest: process_event_no_exit)
qed

lemma analyse_no_exit:
  assumes "analyse fromiso events = Inl err"
  shows "\<not> is_exit err"
proof (cases "group_events fromiso [] events")
  case (Inl e)
  with assms have "err = e" by (simp add: analyse_def and_then_simps)
  with group_events_no_exit [OF Inl] show ?thesis by simp
next
  case (Inr gs)
  with assms have "statistics (completed_scans gs) = Inl err"
    by (auto simp: analyse_def and_then_def Let_def split: if_splits sum.splits)
  from statistics_no_exit [OF this] show ?thesis .
qed

lemma exit_status_no_exit: "\<not> is_exit err \<Longrightarrow> exit_status (Inl err) = 1"
  by (cases err) (simp_all add: exit_status_def is_exit_def)

section \<open>Reading the file\<close>

lemma read_lines_bad:
  "l \<in> set ls \<Longrightarrow> strip l \<noteq> [] \<Longrightarrow> loads (strip l) = None \<Longrightarrow>
   read_lines loads ls acc = Inl (SystemExit 1)"
proof (induction ls arbitrary: acc)
  case Nil
  then show ?case by simp
next
  case (Cons x xs)
  show ?case
  proof (cases "x = l")
    case True
    with Cons.prems show ?thesis by (simp add: Let_def)
  next
    case False
    with Cons.prems have "l \<in> set xs" by simp
    from Cons.IH [OF this Cons.prems(2,3)] show ?thesis
      by (simp add: Let_def split: option.splits)
  qed
qed

lemma read_lines_ok:
  "decoded loads ls = map Some events \<Longrightarrow> read_lines loads ls acc = Inr (acc @ events)"
proof (induction ls arbitrary: acc events)
  case Nil
  then show ?case by (simp add: decoded_def)
next
  case (Cons x xs)
  show ?case
  proof (cases "strip x = []")
    case True
    with Cons.prems have "decoded loads xs = map Some events" by (simp add: decoded_def)
    from Cons.IH [OF this] True show ?thesis by (simp add: Let_def)
  next
    case False
    with Cons.prems obtain e es where es: "events = e # es" "loads (strip x) = Some e"
      "decoded loads xs = map Some es"
      by (cases events) (auto simp: decoded_def)
    from Cons.IH [OF es(3), of "acc @ [e]"] False es(1,2) show ?thesis by (simp add: Let_def)
  qed
qed

section \<open>When the grouping loop raises nothing\<close>

lemma ensure_group_ok_iff:
  "(\<exists>gs1. ensure_group gs k e = Inr gs1) \<longleftrightarrow>
   k \<in> fst ` set gs \<or>
   (template_id e \<noteq> None \<and> target e \<noteq> None \<and> template_path e \<noteq> None \<and> max_requests e \<noteq> None)"
proof (cases "map_of gs k")
  case None
  then have "k \<notin> fst ` set gs" by (simp add: map_of_eq_None_iff)
  with None show ?thesis
    by (auto simp: ensure_group_def and_then_def getitem_def split: option.splits)
next
  case (Some g)
  then have "k \<in> fst ` set gs" by (rule map_of_Some_key)
  with Some show ?thesis by (simp add: ensure_group_def)
qed

lemma ensure_group_has_key:
  "ensure_group gs k e = Inr gs1 \<Longrightarrow> \<exists>g. map_of gs1 k = Some g"
  by (cases "map_of gs k")
     (auto simp: ensure_group_def and_then_Inr update_conv')

lemma event_key_fields:
  "event_key e = Inr k \<Longrightarrow> template_id e \<noteq> None \<and> target e \<noteq> None"
  by (auto simp: event_key_def and_then_def getitem_def split: option.splits)

lemma process_event_ok_iff:
  "(\<exists>gs'. process_event fromiso gs e = Inr gs') \<longleftrightarrow> event_ok fromiso (fst ` set gs) e"
proof
  assume "\<exists>gs'. process_event fromiso gs e = Inr gs'"
  then obtain gs' where p: "process_event fromiso gs e = Inr gs'" ..
  then show "event_ok fromiso (fst ` set gs) e"
  proof (cases rule: process_event_cases)
    case (start k gs1 t)
    with ensure_group_ok_iff [of gs k e] show ?thesis by (auto simp: event_ok_def)
  next
    case (finish k gs1 t)
    with ensure_group_ok_iff [of gs k e] show ?thesis by (auto simp: event_ok_def)
  next
    case (other k ty)
    with ensure_group_ok_iff [of gs k e] show ?thesis by (auto simp: event_ok_def)
  qed
next
  assume ok: "event_ok fromiso (fst ` set gs) e"
  then obtain k ty where k: "event_key e = Inr k" and ty: "event_type e = Some ty"
    and new: "k \<in> fst ` set gs \<or> (template_path e \<noteq> None \<and> max_requests e \<noteq> None)"
    and ts: "ty = ''scan_start'' \<or> ty = ''scan_end'' \<Longrightarrow> timestamp_of fromiso e \<noteq> None"
    by (auto simp: event_ok_def split: sum.splits option.splits)
  from new event_key_fields [OF k] ensure_group_ok_iff [of gs k e] obtain gs1 where
    g: "ensure_group gs k e = Inr gs1" by blast
  from ensure_group_has_key [OF g] obtain g0 where g0: "map_of gs1 k = Some g0" ..
  show "\<exists>gs'. process_event fromiso gs e = Inr gs'"
  proof (cases "ty = ''scan_start'' \<or> ty = ''scan_end''")
    case False
    then show ?thesis
      by (simp add: process_event_def k g ty and_then_simps getitem_def)
  next
    case True
    from ts [OF True] obtain s t where "time e = Some s" "fromiso (replace_Z s) = Some t"
      by (auto simp: timestamp_of_def split: option.splits)
    then show ?thesis
      by (simp add: process_event_def k g ty g0 and_then_simps getitem_def parse_time_def
          set_start_time_def set_end_time_def)
  qed
qed

lemma process_event_key_set:
  assumes "process_event fromiso gs e = Inr gs'"
  shows "fst ` set gs' = (case event_key e of Inl err \<Rightarrow> fst ` set gs | Inr k \<Rightarrow> insert k (fst ` set gs))"
proof -
  from process_event_keys [OF assms] obtain k where k: "event_key e = Inr k"
    and m: "map fst gs' = (if k \<in> fst ` set gs then map fst gs else map fst gs @ [k])" by blast
  have "fst ` set gs' = set (map fst gs')" by simp
  also have "\<dots> = insert k (fst ` set gs)" unfolding m by auto
  finally show ?thesis by (simp add: k)
qed

lemma group_events_ok_iff:
  "(\<exists>gs'. group_events fromiso gs events = Inr gs') \<longleftrightarrow> events_ok fromiso (fst ` set gs) events"
proof (induction events arbitrary: gs)
  case Nil
  then show ?case by simp
next
  case (Cons x xs)
  show ?case
  proof (cases "process_event fromiso gs x")
    case (Inl err)
    then have "\<not> event_ok fromiso (fst ` set gs) x"
      using process_event_ok_iff [of fromiso gs x] by simp
    with Inl show ?thesis by (simp add: and_then_simps)
  next
    case (Inr gs1)
    then have "event_ok fromiso (fst ` set gs) x"
      using process_event_ok_iff [of fromiso gs x] by blast
    with Inr Cons.IH [of gs1] process_event_key_set [OF Inr] show ?thesis
      by (simp add: and_then_simps)
  qed
qed

section \<open>When the statistics raise nothing\<close>

lemma statistics_comparable:
  assumes "statistics cs = Inr st" "\<forall>s\<in>set cs. is_completed s"
  shows "comparable (stamps cs)"
proof -
  from assms(1) obtain a where "py_min (all_times cs) = Inr a"
    by (auto simp: statistics_def Let_def and_then_Inr)
  from py_min_comparable [OF this] show ?thesis by (simp add: set_all_times [OF assms(2)])
qed

lemma statistics_ok_iff:
  assumes "distinct (map fst gs)" "completed_scans gs \<noteq> []"
  shows "(\<exists>st. statistics (completed_scans gs) = Inr st) \<longleftrightarrow> statistics_ok gs"
proof
  assume "\<exists>st. statistics (completed_scans gs) = Inr st"
  then obtain st where st: "statistics (completed_scans gs) = Inr st" ..
  from statistics_comparable [OF st completed_scans_completed]
  have cmp: "comparable (stamps (completed_scans gs))" .
  have nn: "0 \<le> span_micros (stamps (completed_scans gs))"
    by (rule span_nonneg [OF finite_stamps stamps_nonempty [OF assms(2) completed_scans_completed]])
  from statistics_general [OF assms(2) completed_scans_completed cmp nn] st
  have "float_of_int (sum_list (map scan_max_requests (completed_scans gs))) \<noteq> Inl OverflowError"
    by (auto split: sum.splits)
  with cmp show "statistics_ok gs" by (simp add: statistics_ok_def budget_sum [OF assms(1)])
next
  assume "statistics_ok gs"
  with assms(2) have cmp: "comparable (stamps (completed_scans gs))"
    and fl: "float_of_int (sum_list (map scan_max_requests (completed_scans gs))) \<noteq> Inl OverflowError"
    by (simp_all add: statistics_ok_def budget_sum [OF assms(1)])
  have nn: "0 \<le> span_micros (stamps (completed_scans gs))"
    by (rule span_nonneg [OF finite_stamps stamps_nonempty [OF assms(2) completed_scans_completed]])
  from fl obtain y where "float_of_int (sum_list (map scan_max_requests (completed_scans gs))) = Inr (Finite y)"
    by (cases rule: float_of_int_cases [of "sum_list (map scan_max_requests (completed_scans gs))"]) auto
  with statistics_general [OF assms(2) completed_scans_completed cmp nn]
  show "\<exists>st. statistics (completed_scans gs) = Inr st" by auto
qed

section \<open>The whole run\<close>

lemma analyse_report:
  assumes "group_events fromiso [] events = Inr gs"
  shows "(\<exists>rep. analyse fromiso events = Inr rep) \<longleftrightarrow> statistics_ok gs"
    and "analyse fromiso events = Inr rep \<Longrightarrow>
       total_events rep = length events \<and> unique_scans rep = length gs
       \<and> completed_count rep = length (completed_scans gs)
       \<and> (results rep = None \<longleftrightarrow> completed_scans gs = [])"
proof -
  have d: "distinct (map fst gs)" using group_events_distinct [OF assms] by simp
  show "(\<exists>rep. analyse fromiso events = Inr rep) \<longleftrightarrow> statistics_ok gs"
  proof (cases "completed_scans gs = []")
    case True
    then show ?thesis by (simp add: analyse_def assms and_then_simps Let_def statistics_ok_def)
  next
    case False
    have "(\<exists>rep. analyse fromiso events = Inr rep) \<longleftrightarrow>
        (\<exists>st. statistics (completed_scans gs) = Inr st)"
      using False by (auto simp: analyse_def assms and_then_simps and_then_Inr Let_def)
    with statistics_ok_iff [OF d False] show ?thesis by simp
  qed
  show "analyse fromiso events = Inr rep \<Longrightarrow>
       total_events rep = length events \<and> unique_scans rep = length gs
       \<and> completed_count rep = length (completed_scans gs)
       \<and> (results rep = None \<longleftrightarrow> completed_scans gs = [])"
    by (auto simp: analyse_def assms and_then_simps and_then_Inr Let_def split: if_splits)
qed

lemma exit_status_analyse:
  "exit_status (analyse fromiso events) = (if \<exists>rep. analyse fromiso events = Inr rep then 0 else 1)"
proof (cases "analyse fromiso events")
  case (Inl err)
  from exit_status_no_exit [OF analyse_no_exit [OF Inl]] Inl show ?thesis by simp
next
  case (Inr rep)
  then show ?thesis by (simp add: exit_status_def)
qed

text \<open>The run when there is a completed scan and the timestamps can be compared.\<close>

lemma analyse_completed:
  assumes "group_events fromiso [] events = Inr gs"
    and "completed_scans gs \<noteq> []"
    and "comparable (stamps (completed_scans gs))"
  shows "case float_of_int (\<Sum>k\<in>completed_keys gs. group_budget gs k) of
      Inl err \<Rightarrow> analyse fromiso events = Inl err
    | Inr x \<Rightarrow>
        \<exists>rep st. analyse fromiso events = Inr rep \<and> results rep = Some st
          \<and> (if 0 < span_micros (stamps (completed_scans gs))
              then float_div x (total_seconds_of (span_micros (stamps (completed_scans gs))))
                   = Inr (mean_reqs_per_sec st)
              else mean_reqs_per_sec st = x)"
proof -
  from group_events_distinct [OF assms(1)] have "distinct (map fst gs)" by simp
  note sum = budget_sum [OF this, symmetric]
  have nn: "0 \<le> span_micros (stamps (completed_scans gs))"
    by (rule span_nonneg [OF finite_stamps stamps_nonempty [OF assms(2) completed_scans_completed]])
  note gen = statistics_general [OF assms(2) completed_scans_completed assms(3) nn]
  show ?thesis
  proof (cases "float_of_int (sum_list (map scan_max_requests (completed_scans gs)))")
    case (Inl err)
    with gen have "statistics (completed_scans gs) = Inl err" by simp
    with assms(2) Inl show ?thesis
      by (simp add: sum analyse_def assms(1) and_then_simps Let_def)
  next
    case (Inr x)
    with gen obtain st where
      st: "statistics (completed_scans gs) = Inr st"
        "if 0 < span_micros (stamps (completed_scans gs))
         then float_div x (total_seconds_of (span_micros (stamps (completed_scans gs))))
              = Inr (mean_reqs_per_sec st)
         else mean_reqs_per_sec st = x"
      by auto
    with assms(2) Inr show ?thesis
      by (simp add: sum analyse_def assms(1) and_then_simps Let_def)
  qed
qed

section \<open>The sample inputs, evaluated\<close>

lemmas sample_defs =
  two_scans_def two_scans_groups_def repeated_starts_def repeated_groups_def same_instant_def
  same_instant_groups_def unfinished_def unfinished_groups_def huge_scan_def
  huge_scan_groups_def odd_total_def one_scan_def one_scan_groups_def sample_event_def
  sample_scan_def fromiso_sample_def at_second_def

lemmas step_defs =
  process_event_def event_key_def scan_key_def ensure_group_def set_start_time_def
  set_end_time_def and_then_def getitem_def parse_time_def

lemma two_scans_grouped: "group_events fromiso_sample [] two_scans = Inr two_scans_groups"
  by (simp add: sample_defs step_defs)

lemma repeated_starts_grouped:
  "group_events fromiso_sample [] repeated_starts = Inr repeated_groups"
  by (simp add: sample_defs step_defs)

lemma same_instant_grouped:
  "group_events fromiso_sample [] same_instant = Inr same_instant_groups"
  by (simp add: sample_defs step_defs)

lemma unfinished_grouped: "group_events fromiso_sample [] unfinished = Inr unfinished_groups"
  by (simp add: sample_defs step_defs)

lemma two_scans_stamps:
  "stamps (completed_scans two_scans_groups)
     = {at_second 0, at_second 10, at_second 5, at_second 15}"
  by (simp add: stamps_def completed_scans_def is_completed_def two_scans_groups_def
      sample_scan_def insert_commute)

lemma same_instant_stamps: "stamps (completed_scans same_instant_groups) = {at_second 0}"
  by (simp add: stamps_def completed_scans_def is_completed_def same_instant_groups_def
      sample_scan_def)

lemma same_instant_parsed:
  "map (timestamp_of fromiso_sample) same_instant = map Some [at_second 0, at_second 0]"
  by (simp add: timestamp_of_def sample_defs)


lemma two_scans_parsed:
  "map (timestamp_of fromiso_sample) two_scans
     = map Some [at_second 0, at_second 5, at_second 10, at_second 15]"
  by (simp add: timestamp_of_def sample_defs)

lemma huge_scan_grouped: "group_events fromiso_sample [] huge_scan = Inr huge_scan_groups"
  by (simp add: sample_defs step_defs)

lemma huge_scan_stamps:
  "stamps (completed_scans huge_scan_groups) = {at_second 0, at_second 10}"
  by (simp add: stamps_def completed_scans_def is_completed_def huge_scan_groups_def
      sample_scan_def insert_commute)

lemma huge_scan_parsed:
  "map (timestamp_of fromiso_sample) huge_scan = map Some [at_second 0, at_second 10]"
  by (simp add: timestamp_of_def sample_defs)

lemma odd_total_parsed:
  "map (timestamp_of fromiso_sample) odd_total = map Some [at_second 0, at_second 0]"
  by (simp add: timestamp_of_def sample_defs)

lemma one_scan_grouped: "group_events fromiso_sample [] one_scan = Inr one_scan_groups"
  by (simp add: sample_defs step_defs)

lemma one_scan_stamps:
  "stamps (completed_scans one_scan_groups) = {at_second 0, at_second 10}"
  by (simp add: stamps_def completed_scans_def is_completed_def one_scan_groups_def
      sample_scan_def insert_commute)

text \<open>Float arithmetic on the figures of the examples.\<close>

lemma seconds_10: "total_seconds_of 10000000 = Finite 10"
  by (simp add: total_seconds_of_def round_numeral)

lemma seconds_15: "total_seconds_of 15000000 = Finite 15"
  by (simp add: total_seconds_of_def round_numeral)

lemma quotient_150_15: "float_div (Finite 150) (Finite 15) = Inr (Finite 10)"
  by (simp add: float_div_def round_numeral)

lemma quotient_300_15: "float_div (Finite 300) (Finite 15) = Inr (Finite 20)"
  by (simp add: float_div_def round_numeral)

lemma rne_tie: "rne ((2 ^ 53 + 1) / 2) = 2 ^ 52"
  by code_simp

lemma float_of_odd: "float_of_int (2 ^ 53 + 1) = Inr (Finite (2 ^ 53))"
  using round_to_double_cert [of 53 "2 ^ 53 + 1" "2 ^ 52"] rne_tie
  by (simp add: float_of_int_def)

section \<open>The claims\<close>

text \<open>
  Claim C1, amended. When grouping raises nothing, there is a completed scan, and the
  start and end timestamps of the completed scans are mutually comparable with a positive
  span, let \<open>S\<close> be the sum, over the keys of the completed groups, of the group's
  \<open>max_requests\<close> (each group once). If \<open>float(S)\<close> is a float \<open>x\<close>, the reported mean
  requests per second is the float quotient \<open>x / total_seconds\<close>, where \<open>total_seconds\<close>
  is the span in microseconds (maximum minus minimum over all those start and end
  timestamps) divided by \<open>10\<^sup>6\<close> as a float. If \<open>float(S)\<close> raises, the exception is
  \<open>OverflowError\<close>, the run raises it and reports no mean.
\<close>

theorem completed_mean_is_float_quotient:
  assumes "group_events fromiso [] events = Inr gs"
    and "completed_scans gs \<noteq> []"
    and "comparable (stamps (completed_scans gs))"
    and "0 < span_micros (stamps (completed_scans gs))"
  shows "case float_of_int (\<Sum>k\<in>completed_keys gs. group_budget gs k) of
      Inl err \<Rightarrow> err = OverflowError \<and> analyse fromiso events = Inl OverflowError
    | Inr x \<Rightarrow>
        \<exists>rep st. analyse fromiso events = Inr rep \<and> results rep = Some st
          \<and> float_div x (total_seconds_of (span_micros (stamps (completed_scans gs))))
              = Inr (mean_reqs_per_sec st)"
proof (cases "float_of_int (\<Sum>k\<in>completed_keys gs. group_budget gs k)")
  case (Inl err)
  with analyse_completed [OF assms(1-3)] float_of_int_Inl [OF Inl] show ?thesis by simp
next
  case (Inr x)
  with analyse_completed [OF assms(1-3)] assms(4) show ?thesis by simp
qed

text \<open>The two overlapping scans: 150 requests over 15 seconds.\<close>

theorem completed_mean_is_float_quotient_witness:
  "group_events fromiso_sample [] two_scans = Inr two_scans_groups
   \<and> completed_scans two_scans_groups \<noteq> []
   \<and> comparable (stamps (completed_scans two_scans_groups))
   \<and> span_micros (stamps (completed_scans two_scans_groups)) = 15000000
   \<and> (\<Sum>k\<in>completed_keys two_scans_groups. group_budget two_scans_groups k) = 150
   \<and> float_of_int 150 = Inr (Finite 150)
   \<and> (\<exists>rep st. analyse fromiso_sample two_scans = Inr rep \<and> results rep = Some st
         \<and> mean_reqs_per_sec st = Finite 10)"
proof -
  have ne: "completed_scans two_scans_groups \<noteq> []"
    by (simp add: completed_scans_def is_completed_def two_scans_groups_def sample_scan_def)
  have cmp: "comparable (stamps (completed_scans two_scans_groups))"
    unfolding two_scans_stamps by (simp add: comparable_def at_second_def)
  have span: "span_micros (stamps (completed_scans two_scans_groups)) = 15000000"
    unfolding two_scans_stamps by (simp add: span_micros_def at_second_def)
  have keys: "completed_keys two_scans_groups = {''A_h1'', ''B_h1''}"
    by (auto simp: completed_keys_def is_completed_def two_scans_groups_def sample_scan_def)
  have budget: "(\<Sum>k\<in>completed_keys two_scans_groups. group_budget two_scans_groups k) = 150"
    unfolding keys by (simp add: group_budget_def two_scans_groups_def sample_scan_def)
  have fl: "float_of_int 150 = Inr (Finite 150)" by (simp add: float_of_small_int)
  have pos: "0 < span_micros (stamps (completed_scans two_scans_groups))" by (simp add: span)
  from completed_mean_is_float_quotient [OF two_scans_grouped ne cmp pos]
  have "\<exists>rep st. analyse fromiso_sample two_scans = Inr rep \<and> results rep = Some st
         \<and> mean_reqs_per_sec st = Finite 10"
    by (auto simp add: span budget fl seconds_15 quotient_150_15)
  with two_scans_grouped ne cmp span budget fl show ?thesis by simp
qed

text \<open>
  A completed scan of 10 s with budget \<open>2\<^sup>1\<^sup>0\<^sup>2\<^sup>4\<close>: the run raises \<open>OverflowError\<close>,
  where the claim as first stated promises a reported mean.
\<close>

theorem completed_mean_overflow_counterexample:
  "group_events fromiso_sample [] huge_scan = Inr huge_scan_groups
   \<and> completed_scans huge_scan_groups \<noteq> []
   \<and> comparable (stamps (completed_scans huge_scan_groups))
   \<and> span_micros (stamps (completed_scans huge_scan_groups)) = 10000000
   \<and> analyse fromiso_sample huge_scan = Inl OverflowError"
proof -
  have ne: "completed_scans huge_scan_groups \<noteq> []"
    by (simp add: completed_scans_def is_completed_def huge_scan_groups_def sample_scan_def)
  have cmp: "comparable (stamps (completed_scans huge_scan_groups))"
    unfolding huge_scan_stamps by (simp add: comparable_def at_second_def)
  have span: "span_micros (stamps (completed_scans huge_scan_groups)) = 10000000"
    unfolding huge_scan_stamps by (simp add: span_micros_def at_second_def)
  have keys: "completed_keys huge_scan_groups = {''A_h1''}"
    by (auto simp: completed_keys_def is_completed_def huge_scan_groups_def sample_scan_def)
  have budget: "(\<Sum>k\<in>completed_keys huge_scan_groups. group_budget huge_scan_groups k) = 2 ^ 1024"
    unfolding keys by (simp add: group_budget_def huge_scan_groups_def sample_scan_def)
  have fl: "float_of_int (2 ^ 1024) = Inl OverflowError" by (rule float_of_big_int) simp
  from analyse_completed [OF huge_scan_grouped ne cmp]
  have "analyse fromiso_sample huge_scan = Inl OverflowError"
    unfolding budget fl by simp
  with huge_scan_grouped ne cmp span show ?thesis by simp
qed

text \<open>
  Claim C2, amended. The key is a function of \<open>(template_id, target)\<close>: two events with
  equal \<open>template_id\<close> and equal \<open>target\<close> get the same key. The converse holds where
  the separator cannot collide: when neither \<open>template_id\<close> (or neither \<open>target\<close>)
  contains an underscore, two events get the same key if and only if they have equal
  \<open>template_id\<close> and equal \<open>target\<close>.
\<close>

theorem key_deterministic_and_injective_without_separator:
  assumes "template_id e1 = Some a" "target e1 = Some b"
    and "template_id e2 = Some c" "target e2 = Some d"
  shows "(a = c \<and> b = d \<longrightarrow> event_key e1 = event_key e2) \<and>
     ((CHR ''_'' \<notin> set a \<and> CHR ''_'' \<notin> set c) \<or> (CHR ''_'' \<notin> set b \<and> CHR ''_'' \<notin> set d) \<longrightarrow>
      (event_key e1 = event_key e2 \<longleftrightarrow> a = c \<and> b = d))"
proof -
  have k: "event_key e1 = Inr (a @ CHR ''_'' # b)" "event_key e2 = Inr (c @ CHR ''_'' # d)"
    using assms by (simp_all add: event_key_def getitem_def and_then_def scan_key_def)
  show ?thesis
    unfolding k using key_inj_left [of a c b d] key_inj_right [of b d a c] by auto
qed

theorem key_deterministic_and_injective_without_separator_witness:
  "CHR ''_'' \<notin> set ''A'' \<and> CHR ''_'' \<notin> set ''B''
   \<and> event_key (sample_event ''scan_start'' ''A'' ''h_1'' ''t'' 1)
       = event_key (sample_event ''scan_end'' ''A'' ''h_1'' ''u'' 2)
   \<and> event_key (sample_event ''scan_start'' ''A'' ''h_1'' ''t'' 1)
       \<noteq> event_key (sample_event ''scan_start'' ''B'' ''h_1'' ''t'' 1)"
  using key_deterministic_and_injective_without_separator
      [of "sample_event ''scan_start'' ''A'' ''h_1'' ''t'' 1" "''A''" "''h_1''"
          "sample_event ''scan_end'' ''A'' ''h_1'' ''u'' 2" "''A''" "''h_1''"]
    key_deterministic_and_injective_without_separator
      [of "sample_event ''scan_start'' ''A'' ''h_1'' ''t'' 1" "''A''" "''h_1''"
          "sample_event ''scan_start'' ''B'' ''h_1'' ''t'' 1" "''B''" "''h_1''"]
  by (simp add: sample_event_def)

text \<open>
  Two events that differ in both fields and share the key \<open>a_b_c\<close>: the claim as first
  stated, an equivalence for every two events, fails.
\<close>

theorem key_injective_counterexample:
  "event_key (sample_event ''scan_start'' ''a_b'' ''c'' ''1970-01-01T00:00:00Z'' 1)
     = event_key (sample_event ''scan_start'' ''a'' ''b_c'' ''1970-01-01T00:00:00Z'' 1)
   \<and> template_id (sample_event ''scan_start'' ''a_b'' ''c'' ''1970-01-01T00:00:00Z'' 1)
     \<noteq> template_id (sample_event ''scan_start'' ''a'' ''b_c'' ''1970-01-01T00:00:00Z'' 1)
   \<and> target (sample_event ''scan_start'' ''a_b'' ''c'' ''1970-01-01T00:00:00Z'' 1)
     \<noteq> target (sample_event ''scan_start'' ''a'' ''b_c'' ''1970-01-01T00:00:00Z'' 1)"
  by (simp add: sample_event_def event_key_def scan_key_def getitem_def and_then_def)

text \<open>
  Claim C3, amended. For a list of at least two events whose timestamps all parse, are
  mutually comparable and have a positive span, let \<open>T\<close> be the sum over all events of
  \<open>max_requests\<close> (1 when the field is absent). If \<open>float(T)\<close> is a float \<open>x\<close>, the flat
  function returns the float quotient \<open>x / total_seconds\<close>, where \<open>total_seconds\<close> is the
  span in microseconds divided by \<open>10\<^sup>6\<close> as a float. If \<open>float(T)\<close> raises, the
  exception is \<open>OverflowError\<close> and the function raises it.
\<close>

theorem flat_mean_is_float_quotient:
  assumes "2 \<le> length events"
    and "map (timestamp_of fromiso) events = map Some ts"
    and "comparable (set ts)"
    and "0 < span_micros (set ts)"
  shows "case float_of_int (\<Sum>e\<leftarrow>events. case max_requests e of None \<Rightarrow> 1 | Some n \<Rightarrow> n) of
      Inl err \<Rightarrow>
        err = OverflowError \<and> calculate_mean_reqs_per_sec fromiso events = Inl OverflowError
    | Inr x \<Rightarrow>
        \<exists>r. float_div x (total_seconds_of (span_micros (set ts))) = Inr r
          \<and> calculate_mean_reqs_per_sec fromiso events = Inr r"
proof (cases "float_of_int (\<Sum>e\<leftarrow>events. case max_requests e of None \<Rightarrow> 1 | Some n \<Rightarrow> n)")
  case (Inl err)
  with flat_mean_general [OF assms(1-3)] float_of_int_Inl [OF Inl] show ?thesis
    by (simp add: Let_def and_then_simps)
next
  case (Inr x)
  from total_seconds_positive [OF assms(4)]
    float_div_positive [of "total_seconds_of (span_micros (set ts))" x]
  obtain r where "float_div x (total_seconds_of (span_micros (set ts))) = Inr r"
    and "\<not> is_zero (total_seconds_of (span_micros (set ts)))" by blast
  with flat_mean_general [OF assms(1-3)] Inr show ?thesis
    by (simp add: Let_def and_then_simps)
qed

text \<open>The four events of the two overlapping scans: 300 requests over 15 seconds.\<close>

theorem flat_mean_is_float_quotient_witness:
  "2 \<le> length two_scans
   \<and> map (timestamp_of fromiso_sample) two_scans
       = map Some [at_second 0, at_second 5, at_second 10, at_second 15]
   \<and> comparable (set [at_second 0, at_second 5, at_second 10, at_second 15])
   \<and> span_micros (set [at_second 0, at_second 5, at_second 10, at_second 15]) = 15000000
   \<and> calculate_mean_reqs_per_sec fromiso_sample two_scans = Inr (Finite 20)"
proof -
  have len: "2 \<le> length two_scans" by (simp add: two_scans_def)
  have cmp: "comparable (set [at_second 0, at_second 5, at_second 10, at_second 15])"
    by (simp add: comparable_def at_second_def)
  have span: "span_micros (set [at_second 0, at_second 5, at_second 10, at_second 15]) = 15000000"
    by (simp add: span_micros_def at_second_def)
  have pos: "0 < span_micros (set [at_second 0, at_second 5, at_second 10, at_second 15])"
    unfolding span by simp
  have tot: "(\<Sum>e\<leftarrow>two_scans. case max_requests e of None \<Rightarrow> 1 | Some n \<Rightarrow> n) = 300"
    by (simp add: two_scans_def sample_event_def)
  have fl: "float_of_int 300 = Inr (Finite 300)" by (simp add: float_of_small_int)
  from flat_mean_is_float_quotient [OF len two_scans_parsed cmp pos]
  have "calculate_mean_reqs_per_sec fromiso_sample two_scans = Inr (Finite 20)"
    unfolding span tot fl by (auto simp add: seconds_15 quotient_300_15)
  with len two_scans_parsed cmp span show ?thesis by simp
qed

text \<open>
  Two events 10 s apart with budget \<open>2\<^sup>1\<^sup>0\<^sup>2\<^sup>4\<close> each: the function raises
  \<open>OverflowError\<close>, where the claim as first stated promises a returned quotient.
\<close>

theorem flat_mean_overflow_counterexample:
  "2 \<le> length huge_scan
   \<and> map (timestamp_of fromiso_sample) huge_scan = map Some [at_second 0, at_second 10]
   \<and> comparable (set [at_second 0, at_second 10])
   \<and> span_micros (set [at_second 0, at_second 10]) = 10000000
   \<and> calculate_mean_reqs_per_sec fromiso_sample huge_scan = Inl OverflowError"
proof -
  have len: "2 \<le> length huge_scan" by (simp add: huge_scan_def)
  have cmp: "comparable (set [at_second 0, at_second 10])"
    by (simp add: comparable_def at_second_def)
  have span: "span_micros (set [at_second 0, at_second 10]) = 10000000"
    by (simp add: span_micros_def at_second_def)
  have tot: "(\<Sum>e\<leftarrow>huge_scan. case max_requests e of None \<Rightarrow> 1 | Some n \<Rightarrow> n) = 2 ^ 1025"
    by (simp add: huge_scan_def sample_event_def)
  have fl: "float_of_int (2 ^ 1025) = Inl OverflowError" by (rule float_of_big_int) simp
  from flat_mean_general [OF len huge_scan_parsed cmp, unfolded Let_def tot fl]
  have "calculate_mean_reqs_per_sec fromiso_sample huge_scan = Inl OverflowError"
    by (simp add: and_then_simps)
  with len huge_scan_parsed cmp span show ?thesis by simp
qed

text \<open>
  Claim C4. After a left-to-right pass that raises nothing, if \<open>e\<close> is the last
  \<open>scan_start\<close> (respectively \<open>scan_end\<close>) event of key \<open>k\<close> in the list, then the
  group of \<open>k\<close> has as \<open>start_time\<close> (respectively \<open>end_time\<close>) the parsed timestamp of
  \<open>e\<close>, whatever the timestamps of the earlier events of that type and key.
\<close>

theorem last_repeat_wins:
  assumes "group_events fromiso [] events = Inr gs"
    and "events = pre @ e # post"
    and "ty = ''scan_start'' \<or> ty = ''scan_end''"
    and "has_event ty k e"
    and "\<forall>e'\<in>set post. \<not> has_event ty k e'"
  shows "\<exists>g t. map_of gs k = Some g \<and> timestamp_of fromiso e = Some t
       \<and> (if ty = ''scan_start'' then start_time g else end_time g) = Some t"
proof -
  have f: "filter (has_event ty k) events = filter (has_event ty k) pre @ [e]"
    using assms(4,5) by (simp add: assms(2))
  then obtain y ys where ys: "filter (has_event ty k) events = y # ys" "last (y # ys) = e"
    by (cases "filter (has_event ty k) pre") auto
  have "e \<in> set events" by (simp add: assms(2))
  from group_events_parsed [OF assms(1) this] assms(3,4) obtain t where
    t: "timestamp_of fromiso e = Some t" by (auto simp: has_event_def)
  from assms(3) show ?thesis
  proof
    assume ty: "ty = ''scan_start''"
    with group_events_start_field [OF assms(1), of k] ys t
    have "start_field gs k = Some t" by simp
    then show ?thesis using t ty by (auto simp: start_field_def split: option.splits)
  next
    assume ty: "ty = ''scan_end''"
    with group_events_end_field [OF assms(1), of k] ys t
    have "end_field gs k = Some t" by simp
    then show ?thesis using t ty by (auto simp: end_field_def split: option.splits)
  qed
qed

text \<open>
  Starts at 5 s, 20 s and 10 s: the group keeps 10 s, neither the minimum nor the maximum.
\<close>

theorem last_repeat_wins_witness:
  "group_events fromiso_sample [] repeated_starts = Inr repeated_groups
   \<and> has_event ''scan_start'' ''A_h1'' (repeated_starts ! 2)
   \<and> (\<exists>g. map_of repeated_groups ''A_h1'' = Some g \<and> start_time g = Some (at_second 10))"
proof -
  let ?pre = "[sample_event ''scan_start'' ''A'' ''h1'' ''1970-01-01T00:00:05Z'' 7,
               sample_event ''scan_start'' ''A'' ''h1'' ''1970-01-01T00:00:20Z'' 7]"
  let ?e = "sample_event ''scan_start'' ''A'' ''h1'' ''1970-01-01T00:00:10Z'' 7"
  let ?post = "[sample_event ''scan_end'' ''A'' ''h1'' ''1970-01-01T00:00:15Z'' 7]"
  have split: "repeated_starts = ?pre @ ?e # ?post" by (simp add: repeated_starts_def)
  have ev: "has_event ''scan_start'' ''A_h1'' ?e"
    by (simp add: has_event_def sample_event_def event_key_def scan_key_def getitem_def
        and_then_def)
  have later: "\<forall>e'\<in>set ?post. \<not> has_event ''scan_start'' ''A_h1'' e'"
    by (simp add: has_event_def sample_event_def)
  have ts: "timestamp_of fromiso_sample ?e = Some (at_second 10)"
    by (simp add: timestamp_of_def sample_event_def fromiso_sample_def)
  from last_repeat_wins [OF repeated_starts_grouped split _ ev later]
  have "\<exists>g. map_of repeated_groups ''A_h1'' = Some g \<and> start_time g = Some (at_second 10)"
    by (simp add: ts)
  with repeated_starts_grouped ev show ?thesis by (simp add: repeated_starts_def)
qed

text \<open>
  Claim C5, amended. After a pass that raises nothing, the \<open>start_time\<close> of a group is
  set from the last-seen \<open>scan_start\<close> event of its key and its \<open>end_time\<close> from the
  last-seen \<open>scan_end\<close> event of its key (the first-seen one only when there is no
  later one); a field with no such event is \<open>None\<close>.
\<close>

theorem times_from_last_seen:
  assumes "group_events fromiso [] events = Inr gs" and "map_of gs k = Some g"
  shows "start_time g = last_time fromiso ''scan_start'' k events
       \<and> end_time g = last_time fromiso ''scan_end'' k events"
  using group_events_start_field [OF assms(1), of k] group_events_end_field [OF assms(1), of k]
    assms(2)
  by (simp add: start_field_def end_field_def last_time_def split: list.splits)

theorem times_from_last_seen_witness:
  "group_events fromiso_sample [] repeated_starts = Inr repeated_groups
   \<and> last_time fromiso_sample ''scan_start'' ''A_h1'' repeated_starts = Some (at_second 10)
   \<and> last_time fromiso_sample ''scan_end'' ''A_h1'' repeated_starts = Some (at_second 15)
   \<and> start_time (sample_scan ''A'' ''h1'' 7 (Some (at_second 10)) (Some (at_second 15)))
       = Some (at_second 10)"
proof -
  have m: "map_of repeated_groups ''A_h1''
      = Some (sample_scan ''A'' ''h1'' 7 (Some (at_second 10)) (Some (at_second 15)))"
    by (simp add: repeated_groups_def)
  have s: "last_time fromiso_sample ''scan_start'' ''A_h1'' repeated_starts = Some (at_second 10)"
    by (simp add: last_time_def has_event_def timestamp_of_def event_key_def scan_key_def
        getitem_def and_then_def repeated_starts_def sample_event_def fromiso_sample_def)
  have e: "last_time fromiso_sample ''scan_end'' ''A_h1'' repeated_starts = Some (at_second 15)"
    by (simp add: last_time_def has_event_def timestamp_of_def event_key_def scan_key_def
        getitem_def and_then_def repeated_starts_def sample_event_def fromiso_sample_def)
  from times_from_last_seen [OF repeated_starts_grouped m] repeated_starts_grouped s e
  show ?thesis by simp
qed

text \<open>
  The first-seen \<open>scan_start\<close> of the key is at 5 s, and the group has \<open>start_time\<close> 10 s:
  the claim as first stated fails.
\<close>

theorem first_seen_start_counterexample:
  "group_events fromiso_sample [] repeated_starts = Inr repeated_groups
   \<and> map_of repeated_groups ''A_h1''
       = Some (sample_scan ''A'' ''h1'' 7 (Some (at_second 10)) (Some (at_second 15)))
   \<and> has_event ''scan_start'' ''A_h1'' (hd repeated_starts)
   \<and> timestamp_of fromiso_sample (hd repeated_starts) = Some (at_second 5)
   \<and> start_time (sample_scan ''A'' ''h1'' 7 (Some (at_second 10)) (Some (at_second 15)))
       \<noteq> timestamp_of fromiso_sample (hd repeated_starts)"
proof -
  have h: "has_event ''scan_start'' ''A_h1'' (hd repeated_starts)"
    by (simp add: has_event_def repeated_starts_def sample_event_def event_key_def scan_key_def
        getitem_def and_then_def)
  have t: "timestamp_of fromiso_sample (hd repeated_starts) = Some (at_second 5)"
    by (simp add: timestamp_of_def repeated_starts_def sample_event_def fromiso_sample_def)
  have n: "start_time (sample_scan ''A'' ''h1'' 7 (Some (at_second 10)) (Some (at_second 15)))
       \<noteq> Some (at_second 5)"
    by (simp add: sample_scan_def at_second_def)
  show ?thesis
    using repeated_starts_grouped h n unfolding t by (simp add: repeated_groups_def)
qed

text \<open>
  Claim C6. After a pass that raises nothing, the group of a key is among the completed
  scans if and only if the list has at least one \<open>scan_start\<close> event and at least one
  \<open>scan_end\<close> event with that key.
\<close>

theorem completed_iff_start_and_end:
  assumes "group_events fromiso [] events = Inr gs" and "map_of gs k = Some g"
  shows "g \<in> set (completed_scans gs) \<longleftrightarrow>
     (\<exists>e\<in>set events. has_event ''scan_start'' k e) \<and> (\<exists>e\<in>set events. has_event ''scan_end'' k e)"
proof -
  have mem: "g \<in> set (map snd gs)" using map_of_SomeD [OF assms(2)] by force
  have s: "start_time g \<noteq> None \<longleftrightarrow> filter (has_event ''scan_start'' k) events \<noteq> []"
  proof (cases "filter (has_event ''scan_start'' k) events")
    case Nil
    with group_events_start_field [OF assms(1), of k] assms(2) show ?thesis
      by (simp add: start_field_def)
  next
    case (Cons y ys)
    from last_time_parsed [OF assms(1) Cons] group_events_start_field [OF assms(1), of k]
      assms(2) Cons
    show ?thesis by (simp add: start_field_def)
  qed
  have e: "end_time g \<noteq> None \<longleftrightarrow> filter (has_event ''scan_end'' k) events \<noteq> []"
  proof (cases "filter (has_event ''scan_end'' k) events")
    case Nil
    with group_events_end_field [OF assms(1), of k] assms(2) show ?thesis
      by (simp add: end_field_def)
  next
    case (Cons y ys)
    from last_time_parsed [OF assms(1) Cons] group_events_end_field [OF assms(1), of k]
      assms(2) Cons
    show ?thesis by (simp add: end_field_def)
  qed
  have "g \<in> set (completed_scans gs) \<longleftrightarrow> is_completed g"
    using mem by (simp add: completed_scans_def)
  also have "\<dots> \<longleftrightarrow> filter (has_event ''scan_start'' k) events \<noteq> []
      \<and> filter (has_event ''scan_end'' k) events \<noteq> []"
    using s e by (simp add: is_completed_def)
  finally show ?thesis by (simp add: filter_empty_conv)
qed

text \<open>Scan B starts and never ends: it is not among the completed scans.\<close>

theorem completed_iff_start_and_end_witness:
  "group_events fromiso_sample [] unfinished = Inr unfinished_groups
   \<and> map_of unfinished_groups ''B_h1'' = Some (sample_scan ''B'' ''h1'' 20 (Some (at_second 5)) None)
   \<and> (\<exists>e\<in>set unfinished. has_event ''scan_start'' ''B_h1'' e)
   \<and> \<not> (\<exists>e\<in>set unfinished. has_event ''scan_end'' ''B_h1'' e)
   \<and> sample_scan ''B'' ''h1'' 20 (Some (at_second 5)) None \<notin> set (completed_scans unfinished_groups)
   \<and> sample_scan ''A'' ''h1'' 50 (Some (at_second 0)) (Some (at_second 10))
       \<in> set (completed_scans unfinished_groups)"
proof -
  have mb: "map_of unfinished_groups ''B_h1'' = Some (sample_scan ''B'' ''h1'' 20 (Some (at_second 5)) None)"
    by (simp add: unfinished_groups_def)
  have ma: "map_of unfinished_groups ''A_h1''
      = Some (sample_scan ''A'' ''h1'' 50 (Some (at_second 0)) (Some (at_second 10)))"
    by (simp add: unfinished_groups_def)
  have sb: "\<exists>e\<in>set unfinished. has_event ''scan_start'' ''B_h1'' e"
    by (simp add: unfinished_def has_event_def sample_event_def event_key_def scan_key_def
        getitem_def and_then_def)
  have eb: "\<not> (\<exists>e\<in>set unfinished. has_event ''scan_end'' ''B_h1'' e)"
    by (simp add: unfinished_def has_event_def sample_event_def event_key_def scan_key_def
        getitem_def and_then_def)
  have sa: "\<exists>e\<in>set unfinished. has_event ''scan_start'' ''A_h1'' e"
    by (simp add: unfinished_def has_event_def sample_event_def event_key_def scan_key_def
        getitem_def and_then_def)
  have ea: "\<exists>e\<in>set unfinished. has_event ''scan_end'' ''A_h1'' e"
    by (simp add: unfinished_def has_event_def sample_event_def event_key_def scan_key_def
        getitem_def and_then_def)
  from completed_iff_start_and_end [OF unfinished_grouped mb] eb
  have b: "sample_scan ''B'' ''h1'' 20 (Some (at_second 5)) None
      \<notin> set (completed_scans unfinished_groups)" by simp
  from completed_iff_start_and_end [OF unfinished_grouped ma] sa ea
  have a: "sample_scan ''A'' ''h1'' 50 (Some (at_second 0)) (Some (at_second 10))
      \<in> set (completed_scans unfinished_groups)" by simp
  from unfinished_grouped mb sb eb a b show ?thesis by simp
qed

text \<open>
  Claim C7, amended. In both methods a span of exactly zero gives, with no division, the
  total request count converted to a float: the flat function returns \<open>float(T)\<close> for
  the sum \<open>T\<close> of \<open>max_requests\<close> over all events (1 where absent), and the
  completed-scan method reports \<open>float(S)\<close> for the sum \<open>S\<close> of \<open>max_requests\<close> over the
  completed groups. \<open>float(n)\<close> is \<open>n\<close> itself when \<open>|n| < 2\<^sup>5\<^sup>3\<close>; when it is a
  float it is within \<open>|n| / 2\<^sup>5\<^sup>3\<close> of \<open>n\<close>; it raises nothing but \<open>OverflowError\<close>, and
  raises it, with nothing returned, when \<open>n \<ge> 2\<^sup>1\<^sup>0\<^sup>2\<^sup>4\<close>. The flat function computes a
  span once it has two timestamps; the completed-scan method once there is a completed
  scan.
\<close>

theorem zero_span_returns_float_of_total:
  "(2 \<le> length events \<and> map (timestamp_of fromiso) events = map Some ts
      \<and> comparable (set ts) \<and> span_micros (set ts) = 0 \<longrightarrow>
    calculate_mean_reqs_per_sec fromiso events =
      float_of_int (\<Sum>e\<leftarrow>events. case max_requests e of None \<Rightarrow> 1 | Some n \<Rightarrow> n))
   \<and>
   (group_events fromiso [] events = Inr gs \<and> completed_scans gs \<noteq> []
      \<and> comparable (stamps (completed_scans gs))
      \<and> span_micros (stamps (completed_scans gs)) = 0 \<longrightarrow>
    (case float_of_int (\<Sum>k\<in>completed_keys gs. group_budget gs k) of
       Inl err \<Rightarrow> analyse fromiso events = Inl err
     | Inr x \<Rightarrow>
         \<exists>rep st. analyse fromiso events = Inr rep \<and> results rep = Some st
           \<and> mean_reqs_per_sec st = x))
   \<and> (\<bar>n\<bar> < 2 ^ 53 \<longrightarrow> float_of_int n = Inr (Finite (of_int n)))
   \<and> (float_of_int n = Inr (Finite y) \<longrightarrow> \<bar>y - of_int n\<bar> * 2 ^ 53 \<le> \<bar>of_int n\<bar>)
   \<and> (float_of_int n = Inl err \<longrightarrow> err = OverflowError)
   \<and> (2 ^ 1024 \<le> n \<longrightarrow> float_of_int n = Inl OverflowError)"
proof (intro conjI impI)
  assume "2 \<le> length events \<and> map (timestamp_of fromiso) events = map Some ts
      \<and> comparable (set ts) \<and> span_micros (set ts) = 0"
  then show "calculate_mean_reqs_per_sec fromiso events =
      float_of_int (\<Sum>e\<leftarrow>events. case max_requests e of None \<Rightarrow> 1 | Some n \<Rightarrow> n)"
    using flat_mean_general [of events fromiso ts]
    by (simp add: Let_def total_seconds_zero is_zero_def)
next
  assume a: "group_events fromiso [] events = Inr gs \<and> completed_scans gs \<noteq> []
      \<and> comparable (stamps (completed_scans gs))
      \<and> span_micros (stamps (completed_scans gs)) = 0"
  then have g: "group_events fromiso [] events = Inr gs" and ne: "completed_scans gs \<noteq> []"
    and cmp: "comparable (stamps (completed_scans gs))"
    and z: "span_micros (stamps (completed_scans gs)) = 0" by simp_all
  show "case float_of_int (\<Sum>k\<in>completed_keys gs. group_budget gs k) of
       Inl err \<Rightarrow> analyse fromiso events = Inl err
     | Inr x \<Rightarrow>
         \<exists>rep st. analyse fromiso events = Inr rep \<and> results rep = Some st
           \<and> mean_reqs_per_sec st = x"
    using analyse_completed [OF g ne cmp] z
    by (cases "float_of_int (\<Sum>k\<in>completed_keys gs. group_budget gs k)") simp_all
next
  assume "\<bar>n\<bar> < 2 ^ 53"
  then show "float_of_int n = Inr (Finite (of_int n))" by (rule float_of_small_int)
next
  assume "float_of_int n = Inr (Finite y)"
  then show "\<bar>y - of_int n\<bar> * 2 ^ 53 \<le> \<bar>of_int n\<bar>" by (rule float_of_int_accuracy)
next
  assume "float_of_int n = Inl err"
  then show "err = OverflowError" by (rule float_of_int_Inl)
next
  assume "2 ^ 1024 \<le> n"
  then show "float_of_int n = Inl OverflowError" by (rule float_of_big_int)
qed

text \<open>
  A scan that starts and ends at the same instant: the flat method counts 3 + 1, the
  completed-scan method the budget 3 of the one group.
\<close>

theorem zero_span_returns_float_of_total_witness:
  "2 \<le> length same_instant
   \<and> span_micros (set [at_second 0, at_second 0]) = 0
   \<and> span_micros (stamps (completed_scans same_instant_groups)) = 0
   \<and> completed_scans same_instant_groups \<noteq> []
   \<and> calculate_mean_reqs_per_sec fromiso_sample same_instant = Inr (Finite 4)
   \<and> (\<exists>rep st. analyse fromiso_sample same_instant = Inr rep \<and> results rep = Some st
         \<and> mean_reqs_per_sec st = Finite 3)
   \<and> float_of_int (2 ^ 1024) = Inl OverflowError"
proof -
  have len: "2 \<le> length same_instant" by (simp add: same_instant_def)
  have cmp1: "comparable (set [at_second 0, at_second 0])" by (simp add: comparable_def)
  have span1: "span_micros (set [at_second 0, at_second 0]) = 0" by (simp add: span_micros_def)
  have ne: "completed_scans same_instant_groups \<noteq> []"
    by (simp add: completed_scans_def is_completed_def same_instant_groups_def sample_scan_def)
  have cmp2: "comparable (stamps (completed_scans same_instant_groups))"
    unfolding same_instant_stamps by (simp add: comparable_def)
  have span2: "span_micros (stamps (completed_scans same_instant_groups)) = 0"
    unfolding same_instant_stamps by (simp add: span_micros_def)
  have keys: "completed_keys same_instant_groups = {''A_h1''}"
    by (auto simp: completed_keys_def is_completed_def same_instant_groups_def sample_scan_def)
  have budget: "(\<Sum>k\<in>completed_keys same_instant_groups. group_budget same_instant_groups k) = 3"
    unfolding keys by (simp add: group_budget_def same_instant_groups_def sample_scan_def)
  have total: "(\<Sum>e\<leftarrow>same_instant. case max_requests e of None \<Rightarrow> 1 | Some n \<Rightarrow> n) = 4"
    by (simp add: same_instant_def sample_event_def)
  note at = zero_span_returns_float_of_total
    [of same_instant fromiso_sample "[at_second 0, at_second 0]" same_instant_groups]
  from at [of 4] have f4: "float_of_int 4 = Inr (Finite 4)" by simp
  from at [of 3] have f3: "float_of_int 3 = Inr (Finite 3)" by simp
  from at [of "2 ^ 1024"] have big: "float_of_int (2 ^ 1024) = Inl OverflowError" by simp
  from at [of 0] len same_instant_parsed cmp1 span1
  have flat: "calculate_mean_reqs_per_sec fromiso_sample same_instant = Inr (Finite 4)"
    unfolding total f4 by simp
  from at [of 0] same_instant_grouped ne cmp2 span2
  have grouped: "\<exists>rep st. analyse fromiso_sample same_instant = Inr rep \<and> results rep = Some st
         \<and> mean_reqs_per_sec st = Finite 3"
    unfolding budget f3 by simp
  from len span1 span2 ne flat grouped big show ?thesis by simp
qed

text \<open>
  Two events at the same instant whose budgets add up to \<open>2\<^sup>5\<^sup>3 + 1\<close>: the flat function
  returns \<open>2\<^sup>5\<^sup>3\<close>, which is not the total request count.
\<close>

theorem zero_span_rounding_counterexample:
  "2 \<le> length odd_total
   \<and> map (timestamp_of fromiso_sample) odd_total = map Some [at_second 0, at_second 0]
   \<and> span_micros (set [at_second 0, at_second 0]) = 0
   \<and> (\<Sum>e\<leftarrow>odd_total. case max_requests e of None \<Rightarrow> 1 | Some n \<Rightarrow> n) = 2 ^ 53 + 1
   \<and> calculate_mean_reqs_per_sec fromiso_sample odd_total = Inr (Finite (2 ^ 53))
   \<and> Finite (2 ^ 53) \<noteq> Finite (of_int (2 ^ 53 + 1))"
proof -
  have len: "2 \<le> length odd_total" by (simp add: odd_total_def)
  have cmp: "comparable (set [at_second 0, at_second 0])" by (simp add: comparable_def)
  have span: "span_micros (set [at_second 0, at_second 0]) = 0" by (simp add: span_micros_def)
  have tot: "(\<Sum>e\<leftarrow>odd_total. case max_requests e of None \<Rightarrow> 1 | Some n \<Rightarrow> n) = 2 ^ 53 + 1"
    by (simp add: odd_total_def sample_event_def)
  from flat_mean_general [OF len odd_total_parsed cmp, unfolded Let_def tot span float_of_odd]
  have "calculate_mean_reqs_per_sec fromiso_sample odd_total = Inr (Finite (2 ^ 53))"
    by (simp add: total_seconds_zero is_zero_def)
  with len odd_total_parsed span tot show ?thesis by simp
qed

text \<open>
  Claim C8, amended. On the empty list the flat function returns 0.0. On a list of one
  event with fields typed as in the data model (\<open>time\<close> a string, \<open>max_requests\<close> an
  integer, either possibly absent) it returns 0.0 when the event has a \<open>time\<close> that
  parses; it raises \<open>KeyError\<close> when the event has no \<open>time\<close> and \<open>ValueError\<close> when
  its \<open>time\<close> does not parse, the loop coming before the test of the length.
\<close>

theorem flat_mean_short_list:
  "calculate_mean_reqs_per_sec fromiso [] = Inr (Finite 0) \<and>
   calculate_mean_reqs_per_sec fromiso [e] =
     (case time e of
        None \<Rightarrow> Inl (KeyError ''time'')
      | Some s \<Rightarrow>
          (case fromiso (replace_Z s) of None \<Rightarrow> Inl ValueError | Some t \<Rightarrow> Inr (Finite 0)))"
  using flat_single [of fromiso e] by (simp add: calculate_mean_reqs_per_sec_def)

theorem flat_mean_short_list_witness:
  "calculate_mean_reqs_per_sec fromiso_sample [] = Inr (Finite 0)
   \<and> calculate_mean_reqs_per_sec fromiso_sample
       [sample_event ''scan_start'' ''A'' ''h1'' ''1970-01-01T00:00:05Z'' 7] = Inr (Finite 0)"
  using flat_mean_short_list
    [of fromiso_sample "sample_event ''scan_start'' ''A'' ''h1'' ''1970-01-01T00:00:05Z'' 7"]
  by (simp add: sample_event_def fromiso_sample_def)

text \<open>
  One event whose \<open>time\<close> is not a timestamp: the function raises \<open>ValueError\<close> and
  returns nothing; the same happens, with \<open>KeyError\<close>, for the empty object.
\<close>

theorem flat_mean_single_event_counterexample:
  "length [sample_event ''scan_start'' ''A'' ''h1'' ''yesterday'' 7] \<le> 1
   \<and> calculate_mean_reqs_per_sec fromiso_sample
       [sample_event ''scan_start'' ''A'' ''h1'' ''yesterday'' 7] = Inl ValueError
   \<and> calculate_mean_reqs_per_sec fromiso_sample [empty_object] = Inl (KeyError ''time'')"
  by (simp add: calculate_mean_reqs_per_sec_def sample_event_def empty_object_def
      fromiso_sample_def and_then_def getitem_def parse_time_def)

text \<open>
  Claim C9, amended. The program exits with status 1 when the input file does not exist
  and when some non-blank line fails to parse as JSON. On a fully parsed input (every
  non-blank line an object with fields typed as in the data model) the status is 0 or 1,
  and it is 0 exactly when the rest of \<open>main\<close> raises nothing, that
  is when every event has \<open>template_id\<close>, \<open>target\<close> and \<open>event_type\<close>, the first event
  of each key also has \<open>template_path\<close> and \<open>max_requests\<close>, every \<open>scan_start\<close> and
  \<open>scan_end\<close> event has a \<open>time\<close> that parses, and either no scan is completed or the
  timestamps of the completed scans are mutually comparable and the sum of their
  \<open>max_requests\<close> converts to a float. With status 0 the program reports the numbers of
  events, of keys and of completed scans, and it prints the no-completed-scans message
  instead of statistics exactly when no scan is completed.
\<close>

theorem exit_status_of_main:
  "exit_status (main loads fromiso None) = 1
   \<and> ((\<exists>l\<in>set ls. strip l \<noteq> [] \<and> loads (strip l) = None) \<longrightarrow>
        exit_status (main loads fromiso (Some ls)) = 1)
   \<and> (decoded loads ls = map Some events \<longrightarrow>
        (exit_status (main loads fromiso (Some ls)) = 0 \<or>
         exit_status (main loads fromiso (Some ls)) = 1)
        \<and> (exit_status (main loads fromiso (Some ls)) = 0 \<longleftrightarrow>
             events_ok fromiso {} events
             \<and> (\<forall>gs. group_events fromiso [] events = Inr gs \<longrightarrow> statistics_ok gs))
        \<and> (exit_status (main loads fromiso (Some ls)) = 0 \<longrightarrow>
             (\<exists>gs rep. group_events fromiso [] events = Inr gs
                \<and> main loads fromiso (Some ls) = Inr rep
                \<and> total_events rep = length events \<and> unique_scans rep = length gs
                \<and> completed_count rep = length (completed_scans gs)
                \<and> (results rep = None \<longleftrightarrow> completed_scans gs = []))))"
proof (intro conjI impI)
  show "exit_status (main loads fromiso None) = 1"
    by (simp add: main_def parse_events_file_def and_then_simps exit_status_def)
next
  assume "\<exists>l\<in>set ls. strip l \<noteq> [] \<and> loads (strip l) = None"
  then obtain l where l: "l \<in> set ls" "strip l \<noteq> []" "loads (strip l) = None" by blast
  from read_lines_bad [of l ls loads "[]", OF l]
  show "exit_status (main loads fromiso (Some ls)) = 1"
    by (simp add: main_def parse_events_file_def and_then_simps exit_status_def)
next
  assume d: "decoded loads ls = map Some events"
  then have m: "main loads fromiso (Some ls) = analyse fromiso events"
    using read_lines_ok [of loads ls events "[]"]
    by (simp add: main_def parse_events_file_def and_then_simps)
  note st = exit_status_analyse [of fromiso events]
  show "exit_status (main loads fromiso (Some ls)) = 0 \<or>
        exit_status (main loads fromiso (Some ls)) = 1"
    unfolding m st by simp
  have ok: "(\<exists>rep. analyse fromiso events = Inr rep) \<longleftrightarrow>
      events_ok fromiso {} events
      \<and> (\<forall>gs. group_events fromiso [] events = Inr gs \<longrightarrow> statistics_ok gs)"
  proof (cases "group_events fromiso [] events")
    case (Inl err)
    then have "\<not> events_ok fromiso {} events"
      using group_events_ok_iff [of fromiso "[]" events] by simp
    with Inl show ?thesis by (simp add: analyse_def and_then_simps)
  next
    case (Inr gs)
    then have "events_ok fromiso {} events"
      using group_events_ok_iff [of fromiso "[]" events] by auto
    with analyse_report(1) [OF Inr] Inr show ?thesis by simp
  qed
  show "exit_status (main loads fromiso (Some ls)) = 0 \<longleftrightarrow>
        events_ok fromiso {} events
        \<and> (\<forall>gs. group_events fromiso [] events = Inr gs \<longrightarrow> statistics_ok gs)"
    unfolding m st using ok by simp
  show "\<exists>gs rep. group_events fromiso [] events = Inr gs
          \<and> main loads fromiso (Some ls) = Inr rep
          \<and> total_events rep = length events \<and> unique_scans rep = length gs
          \<and> completed_count rep = length (completed_scans gs)
          \<and> (results rep = None \<longleftrightarrow> completed_scans gs = [])"
    if "exit_status (main loads fromiso (Some ls)) = 0"
  proof -
    from that obtain rep where rep: "analyse fromiso events = Inr rep"
      unfolding m st by (auto split: if_splits)
    then obtain gs where gs: "group_events fromiso [] events = Inr gs"
      by (cases "group_events fromiso [] events") (auto simp: analyse_def and_then_simps)
    from analyse_report(2) [OF gs rep] gs rep show ?thesis by (simp add: m)
  qed
qed

text \<open>
  A log with one scan of 10 s and a blank line, a log with a line that is not JSON, and
  no log.
\<close>

theorem exit_status_of_main_witness:
  "decoded loads_sample one_scan_file = map Some one_scan
   \<and> events_ok fromiso_sample {} one_scan
   \<and> statistics_ok one_scan_groups
   \<and> exit_status (main loads_sample fromiso_sample (Some one_scan_file)) = 0
   \<and> exit_status (main loads_sample fromiso_sample (Some [codepoints ''not json''])) = 1
   \<and> exit_status (main loads_sample fromiso_sample None) = 1"
proof -
  have sl: "strip (codepoints (start_line @ ''\<newline>'')) = codepoints start_line"
    by (simp add: strip_def is_space_def start_line_def codepoints_def)
  have el: "strip (codepoints (end_line @ ''\<newline>'')) = codepoints end_line"
    by (simp add: strip_def is_space_def end_line_def codepoints_def)
  have bl: "strip [0x20, 0xA0, 0x0A] = []" by (simp add: strip_def is_space_def)
  have ne: "codepoints start_line \<noteq> []" "codepoints end_line \<noteq> []"
    by (simp_all add: start_line_def end_line_def codepoints_def)
  have ls: "loads_sample (codepoints start_line) = Some (one_scan ! 0)"
    by (simp add: loads_sample_def start_line_def codepoints_def)
  have le: "loads_sample (codepoints end_line) = Some (one_scan ! 1)"
    by (simp add: loads_sample_def start_line_def end_line_def codepoints_def)
  have d: "decoded loads_sample one_scan_file = map Some one_scan"
    using ne ls le by (simp add: decoded_def one_scan_file_def sl el bl one_scan_def)
  have ev: "events_ok fromiso_sample {} one_scan"
    by (simp add: event_ok_def timestamp_of_def event_key_def scan_key_def getitem_def
        and_then_def sample_defs)
  have so: "statistics_ok one_scan_groups"
  proof -
    have keys: "completed_keys one_scan_groups = {''A_h1''}"
      by (auto simp: completed_keys_def is_completed_def one_scan_groups_def sample_scan_def)
    have "(\<Sum>k\<in>completed_keys one_scan_groups. group_budget one_scan_groups k) = 50"
      unfolding keys by (simp add: group_budget_def one_scan_groups_def sample_scan_def)
    moreover have "comparable (stamps (completed_scans one_scan_groups))"
      unfolding one_scan_stamps by (simp add: comparable_def at_second_def)
    ultimately show ?thesis by (simp add: statistics_ok_def float_of_small_int)
  qed
  have all: "\<forall>gs. group_events fromiso_sample [] one_scan = Inr gs \<longrightarrow> statistics_ok gs"
    using so by (simp add: one_scan_grouped)
  have bad: "\<exists>l\<in>set [codepoints ''not json'']. strip l \<noteq> [] \<and> loads_sample (strip l) = None"
    by (simp add: strip_def is_space_def loads_sample_def start_line_def end_line_def
        codepoints_def)
  from exit_status_of_main [of loads_sample fromiso_sample one_scan_file one_scan] d ev all
  have ok: "exit_status (main loads_sample fromiso_sample (Some one_scan_file)) = 0" by blast
  from exit_status_of_main [of loads_sample fromiso_sample "[codepoints ''not json'']"] bad
  have ko: "exit_status (main loads_sample fromiso_sample (Some [codepoints ''not json''])) = 1"
    by blast
  from exit_status_of_main [of loads_sample fromiso_sample]
  have nf: "exit_status (main loads_sample fromiso_sample None) = 1" by blast
  from d ev so ok ko nf show ?thesis by simp
qed

text \<open>
  A log whose only line is the empty object: the line decodes, the first subscript of the
  grouping loop raises \<open>KeyError\<close>, and the status is 1, not 0.
\<close>

theorem exit_status_parsed_input_counterexample:
  "parse_events_file loads_sample (Some [codepoints ''{}\<newline>'']) = Inr [empty_object]
   \<and> main loads_sample fromiso_sample (Some [codepoints ''{}\<newline>''])
       = Inl (KeyError ''template_id'')
   \<and> exit_status (main loads_sample fromiso_sample (Some [codepoints ''{}\<newline>''])) = 1"
  by (simp add: main_def parse_events_file_def strip_def is_space_def loads_sample_def
      codepoints_def analyse_def process_event_def event_key_def empty_object_def and_then_def
      getitem_def exit_status_def Let_def)

text \<open>
  Claim C10. When an event whose key is already in the map is processed without raising,
  the group of that key keeps its \<open>template_id\<close>, \<open>target\<close>, \<open>template_path\<close> and
  \<open>max_requests\<close>; when the event is neither a \<open>scan_start\<close> nor a \<open>scan_end\<close>, the
  whole group is unchanged.
\<close>

theorem existing_group_frame:
  assumes "process_event fromiso gs e = Inr gs'" and "event_key e = Inr k"
    and "map_of gs k = Some g"
  shows "\<exists>g'. map_of gs' k = Some g'
       \<and> scan_template_id g' = scan_template_id g \<and> scan_target g' = scan_target g
       \<and> scan_template_path g' = scan_template_path g
       \<and> scan_max_requests g' = scan_max_requests g
       \<and> (event_type e \<noteq> Some ''scan_start'' \<and> event_type e \<noteq> Some ''scan_end'' \<longrightarrow> g' = g)"
  using assms(1)
proof (cases rule: process_event_cases)
  case (start k0 gs1 t)
  with assms(2) have k0: "k0 = k" by simp
  from ensure_group_present [OF start(2) [unfolded k0] assms(3)] have "gs1 = gs" .
  with set_start_time_map_of [OF start(5)] k0 assms(3) start(3) show ?thesis by auto
next
  case (finish k0 gs1 t)
  with assms(2) have k0: "k0 = k" by simp
  from ensure_group_present [OF finish(2) [unfolded k0] assms(3)] have "gs1 = gs" .
  with set_end_time_map_of [OF finish(5)] k0 assms(3) finish(3) show ?thesis by auto
next
  case (other k0 ty)
  with assms(2) have k0: "k0 = k" by simp
  from ensure_group_present [OF other(2) [unfolded k0] assms(3)] have "gs' = gs" .
  with assms(3) show ?thesis by simp
qed

text \<open>
  A progress event of scan A with another path, budget and an unparseable time: the
  groups are as before.
\<close>

theorem existing_group_frame_witness:
  "process_event fromiso_sample two_scans_groups
     ((sample_event ''scan_progress'' ''A'' ''h1'' ''yesterday'' 999)
        \<lparr>template_path := Some ''other.yaml''\<rparr>) = Inr two_scans_groups
   \<and> map_of two_scans_groups ''A_h1''
       = Some (sample_scan ''A'' ''h1'' 100 (Some (at_second 0)) (Some (at_second 10)))"
proof -
  let ?e = "(sample_event ''scan_progress'' ''A'' ''h1'' ''yesterday'' 999)
        \<lparr>template_path := Some ''other.yaml''\<rparr>"
  have p: "process_event fromiso_sample two_scans_groups ?e = Inr two_scans_groups"
    by (simp add: sample_defs step_defs)
  have k: "event_key ?e = Inr ''A_h1''"
    by (simp add: sample_event_def event_key_def scan_key_def getitem_def and_then_def)
  have m: "map_of two_scans_groups ''A_h1''
       = Some (sample_scan ''A'' ''h1'' 100 (Some (at_second 0)) (Some (at_second 10)))"
    by (simp add: two_scans_groups_def)
  from existing_group_frame [OF p k m] p m show ?thesis by simp
qed

end
